theory Spec2Isabelle
  imports Main
begin

section \<open>Values, contexts and closures\<close>

text \<open>
  The two error singletons of the module, \<^verbatim>\<open>deadlineError\<close> and \<^verbatim>\<open>cancelledError\<close>,
  and an \<^verbatim>\<open>Error\<close> made with \<^verbatim>\<open>new Error(message)\<close>.
\<close>

datatype error_obj = DeadlineError | CancelledError | PlainError string

text \<open>
  The JavaScript values that flow through the module: \<^verbatim>\<open>null\<close>, \<^verbatim>\<open>undefined\<close>,
  booleans, numbers (as results of user operations) and the error objects.
\<close>

datatype jsval = JNull | JUndefined | JBool bool | JNum int | JError error_obj

text \<open>The test \<^verbatim>\<open>!v\<close>.\<close>

fun falsy :: "jsval \<Rightarrow> bool" where
  "falsy JNull = True"
| "falsy JUndefined = True"
| "falsy (JBool b) = (\<not> b)"
| "falsy (JNum n) = (n = 0)"
| "falsy (JError e) = False"

text \<open>Reading a positional parameter: a missing argument is \<^verbatim>\<open>undefined\<close>.\<close>

fun arg :: "nat \<Rightarrow> jsval list \<Rightarrow> jsval" where
  "arg i [] = JUndefined"
| "arg 0 (v # vs) = v"
| "arg (Suc i) (v # vs) = arg i vs"

datatype settle = Pending | Fulfilled jsval | Rejected jsval

type_synonym addr = nat
type_synonym sym = nat
type_synonym pid = nat
type_synonym rid = nat

datatype key = StrKey string | SymKey nat

datatype empty_name = Background | Todo

text \<open>
  A context object. The fields \<^verbatim>\<open>__parentCtx\<close>, \<^verbatim>\<open>__key\<close>, \<^verbatim>\<open>__value\<close> and
  \<^verbatim>\<open>__deadline\<close> are assigned once in the constructors and never again, so they are part
  of the immutable term; the mutable fields of a \<^verbatim>\<open>_CancelContext\<close> live in the store at
  the object's address. A deadline is a \<^verbatim>\<open>Date\<close>, taken as its millisecond count.
\<close>

datatype ctx =
    EmptyContext empty_name
  | ValueContext ctx key jsval
  | CancelContext ctx "int option" addr

text \<open>
  The zero-argument functions the module creates, and the callbacks of its callers.
  \<^item> \<open>Noop\<close>: \<^verbatim>\<open>_noop\<close>;
  \<^item> \<open>ParentDone this parentCtx\<close>: the handler the constructor registers on the parent,
    \<^verbatim>\<open>() => { this.__unregParentFunc = null; this[symCancelFunc](parentCtx.error); }\<close>;
  \<^item> \<open>DeadlineFire this\<close>: the constructor's \<^verbatim>\<open>f\<close>,
    \<^verbatim>\<open>() => { this[symCancelFunc](deadlineError); }\<close>;
  \<^item> \<open>Unregister this s\<close>: the function \<^verbatim>\<open>doneHandler\<close> returns,
    \<^verbatim>\<open>() => { this.__doneHandlers = this.__doneHandlers.filter(x => x[0] !== s); }\<close>;
  \<^item> \<open>CancelTrigger this\<close>: the function \<^verbatim>\<open>withDeadline\<close> returns,
    \<^verbatim>\<open>() => { ctx[symCancelFunc](true, cancelledError); }\<close>, for the context at \<open>this\<close>;
  \<^item> \<open>ExpiryReject p ctx\<close>: the handler of \<^verbatim>\<open>expiryPromise\<close>,
    \<^verbatim>\<open>() => { reject(ctx.error); }\<close>, for the promise \<open>p\<close>;
  \<^item> \<open>UserLog n\<close>: a caller's callback that only records that it ran;
  \<^item> \<open>UserThrow v\<close>: a caller's callback that throws \<open>v\<close>, \<^verbatim>\<open>() => { throw v; }\<close>;
  \<^item> \<open>UserSettle p s\<close>: a caller's callback that settles a promise \<open>p\<close> of the caller,
    \<^verbatim>\<open>() => { resolve(x); }\<close> or \<^verbatim>\<open>() => { reject(e); }\<close> with the functions of \<open>p\<close>;
  \<^item> \<open>UserSeq fs\<close>: a caller's callback that calls the functions \<open>fs\<close> in order, and
    throws what the first of them to throw throws.
\<close>

datatype closure =
    Noop
  | ParentDone addr ctx
  | DeadlineFire addr
  | Unregister addr sym
  | CancelTrigger addr
  | ExpiryReject pid ctx
  | UserLog nat
  | UserThrow jsval
  | UserSettle pid settle
  | UserSeq "closure list"

text \<open>
  The one-argument functions used as promise callbacks.
  \<^item> \<open>ResolveFn p\<close>, \<open>RejectFn p\<close>: the \<^verbatim>\<open>resolve\<close> and \<^verbatim>\<open>reject\<close> of promise \<open>p\<close>;
  \<^item> \<open>RaceFulfilled r\<close>: in \<^verbatim>\<open>raceContext\<close>,
    \<^verbatim>\<open>x => { if (aborted && cleanupFunc) cleanupFunc(x); resolve(x); }\<close>;
  \<^item> \<open>RaceExpired r\<close>: in \<^verbatim>\<open>raceContext\<close>, \<^verbatim>\<open>e => { aborted = true; reject(e); }\<close>.
  The index \<open>r\<close> names the activation of \<^verbatim>\<open>raceContext\<close> whose variables the function
  closes over.
\<close>

datatype vclosure = ResolveFn pid | RejectFn pid | RaceFulfilled rid | RaceExpired rid

section \<open>The store\<close>

text \<open>The mutable fields of a \<^verbatim>\<open>_CancelContext\<close>.\<close>

record cell =
  error :: jsval
  doneHandlers :: "(sym \<times> closure) list"
  unregParentFunc :: "closure option"

text \<open>
  A promise: its state and, while it is pending, the callbacks attached with
  \<^verbatim>\<open>then(onFulfilled, onRejected)\<close>; \<^verbatim>\<open>catch(h)\<close> is \<^verbatim>\<open>then(undefined, h)\<close>.
\<close>

record promise =
  pstate :: settle
  reactions :: "(vclosure option \<times> vclosure option) list"

text \<open>
  The variables of one activation of \<^verbatim>\<open>raceContext\<close>: \<^verbatim>\<open>aborted\<close>, \<^verbatim>\<open>cleanupFunc\<close>
  (a caller's function, named by a tag, or \<^verbatim>\<open>null\<close>) and the promise whose
  \<^verbatim>\<open>resolve\<close> and \<^verbatim>\<open>reject\<close> are in scope.
\<close>

record race =
  aborted :: bool
  cleanupFunc :: "nat option"
  outer :: pid

text \<open>What a caller can observe of its own functions being called.\<close>

datatype event = UserRan nat | OpStarted nat | CleanupCalled nat jsval

record world =
  cells :: "cell list"
  nextSym :: sym
  timers :: "(closure \<times> int) list"
  promises :: "promise list"
  races :: "race list"
  jobs :: "(vclosure \<times> jsval) list"
  trace :: "event list"
  clock :: int

definition freshCell :: cell where
  "freshCell = \<lparr>error = JNull, doneHandlers = [], unregParentFunc = None\<rparr>"

text \<open>
  Field access through an address. A reference always denotes an object in JavaScript;
  so that the model is total, an address beyond the store reads as a fresh object and
  a write to it is lost.
\<close>

definition cellAt :: "world \<Rightarrow> addr \<Rightarrow> cell" where
  "cellAt w a = (if a < length (cells w) then cells w ! a else freshCell)"

definition setCell :: "addr \<Rightarrow> (cell \<Rightarrow> cell) \<Rightarrow> world \<Rightarrow> world" where
  "setCell a f w = w\<lparr>cells := (cells w)[a := f (cellAt w a)]\<rparr>"

section \<open>Outcomes\<close>

text \<open>
  A call returns normally or throws; either way the store it leaves behind is kept.
  \<open>None\<close> is reserved for a computation that has not finished within the call depth
  it was given.
\<close>

datatype 'a completion = Normal 'a | Throw jsval

type_synonym 'a result = "('a completion \<times> world) option"

type_synonym runner = "closure \<Rightarrow> world \<Rightarrow> unit result"

definition andThen :: "'a result \<Rightarrow> ('a \<Rightarrow> world \<Rightarrow> 'b result) \<Rightarrow> 'b result" where
  "andThen r k =
     (case r of
        None \<Rightarrow> None
      | Some (Throw e, w) \<Rightarrow> Some (Throw e, w)
      | Some (Normal x, w) \<Rightarrow> k x w)"

definition ret :: "'a \<Rightarrow> world \<Rightarrow> 'a result" where
  "ret x w = Some (Normal x, w)"

section \<open>Promises\<close>

definition promiseAt :: "world \<Rightarrow> pid \<Rightarrow> promise" where
  "promiseAt w p =
     (if p < length (promises w) then promises w ! p else \<lparr>pstate = Pending, reactions = []\<rparr>)"

text \<open>The jobs a settled promise queues for one attached pair of callbacks.\<close>

fun reactionJobs :: "settle \<Rightarrow> (vclosure option \<times> vclosure option) \<Rightarrow> (vclosure \<times> jsval) list" where
  "reactionJobs (Fulfilled x) (Some f, _) = [(f, x)]"
| "reactionJobs (Rejected e) (_, Some g) = [(g, e)]"
| "reactionJobs _ _ = []"

text \<open>
  \<^verbatim>\<open>resolve(x)\<close> and \<^verbatim>\<open>reject(e)\<close>: only a pending promise changes; its callbacks are
  queued as jobs in the order they were attached. The values resolved with are not
  thenables.
\<close>

definition settlePromise :: "pid \<Rightarrow> settle \<Rightarrow> world \<Rightarrow> world" where
  "settlePromise p s w =
     (if pstate (promiseAt w p) = Pending then
        w\<lparr>promises := (promises w)[p := \<lparr>pstate = s, reactions = []\<rparr>],
          jobs := jobs w @ concat (map (reactionJobs s) (reactions (promiseAt w p)))\<rparr>
      else w)"

text \<open>
  \<^verbatim>\<open>p.then(f, g)\<close>. The promise derived by \<^verbatim>\<open>then\<close> is dropped by every caller in
  the module and is not modelled.
\<close>

definition thenPromise :: "pid \<Rightarrow> vclosure option \<Rightarrow> vclosure option \<Rightarrow> world \<Rightarrow> world" where
  "thenPromise p f g w =
     (if pstate (promiseAt w p) = Pending then
        w\<lparr>promises := (promises w)[p := (promiseAt w p)\<lparr>reactions := reactions (promiseAt w p) @ [(f, g)]\<rparr>]\<rparr>
      else w\<lparr>jobs := jobs w @ reactionJobs (pstate (promiseAt w p)) (f, g)\<rparr>)"

definition newPromise :: "settle \<Rightarrow> world \<Rightarrow> pid \<times> world" where
  "newPromise s w =
     (length (promises w), w\<lparr>promises := promises w @ [\<lparr>pstate = s, reactions = []\<rparr>]\<rparr>)"

section \<open>The context interface\<close>

text \<open>The error thrown by the Done transition when it is given no cause.\<close>

definition mustHaveError :: jsval where
  "mustHaveError = JError (PlainError ''must have an error when cancelling'')"

text \<open>The getter \<^verbatim>\<open>error\<close> of the three classes.\<close>

fun errorOf :: "world \<Rightarrow> ctx \<Rightarrow> jsval" where
  "errorOf w (EmptyContext n) = JNull"
| "errorOf w (ValueContext parentCtx k v) = errorOf w parentCtx"
| "errorOf w (CancelContext parentCtx d this) = error (cellAt w this)"

text \<open>The getter \<^verbatim>\<open>deadline\<close> of the three classes.\<close>

fun deadlineOf :: "ctx \<Rightarrow> int option" where
  "deadlineOf (EmptyContext n) = None"
| "deadlineOf (ValueContext parentCtx k v) = deadlineOf parentCtx"
| "deadlineOf (CancelContext parentCtx d this) =
     (case d of Some t \<Rightarrow> Some t | None \<Rightarrow> deadlineOf parentCtx)"

text \<open>The method \<^verbatim>\<open>value(key)\<close>; \<open>JUndefined\<close> when no ancestor sets the key.\<close>

fun valueOf :: "ctx \<Rightarrow> key \<Rightarrow> jsval" where
  "valueOf (EmptyContext n) key = JUndefined"
| "valueOf (ValueContext parentCtx k v) key = (if k = key then v else valueOf parentCtx key)"
| "valueOf (CancelContext parentCtx d this) key = valueOf parentCtx key"

text \<open>
  The method \<^verbatim>\<open>doneHandler(f)\<close>; the result is the unregister function. \<open>run\<close> is the
  interpreter of function calls, used where \<open>f\<close> is called at once.
\<close>

fun doneHandler :: "runner \<Rightarrow> ctx \<Rightarrow> closure \<Rightarrow> world \<Rightarrow> closure result" where
  "doneHandler run (EmptyContext n) f w = ret Noop w"
| "doneHandler run (ValueContext parentCtx k v) f w = doneHandler run parentCtx f w"
| "doneHandler run (CancelContext parentCtx d this) f w =
     (if error (cellAt w this) \<noteq> JNull then
        andThen (run f w) (\<lambda>_. ret Noop)
      else
        let s = nextSym w;
            w1 = w\<lparr>nextSym := Suc s\<rparr>;
            w2 = setCell this (\<lambda>c. c\<lparr>doneHandlers := doneHandlers c @ [(s, f)]\<rparr>) w1
        in ret (Unregister this s) w2)"

section \<open>The Done transition\<close>

text \<open>A \<^verbatim>\<open>for ... of\<close> loop calling each function of a list; a throw leaves the loop.\<close>

fun forEach :: "runner \<Rightarrow> closure list \<Rightarrow> world \<Rightarrow> unit result" where
  "forEach run [] w = ret () w"
| "forEach run (h # hs) w = andThen (run h w) (\<lambda>_. forEach run hs)"

text \<open>
  The method \<^verbatim>\<open>[symCancelFunc](err)\<close>, applied to the list of actual arguments. The
  loop runs over the array that \<^verbatim>\<open>this.__doneHandlers\<close> holds when the loop starts: an
  unregister function called meanwhile assigns a filtered copy to the field and leaves
  that array as it is.
\<close>

definition symCancelFunc :: "runner \<Rightarrow> addr \<Rightarrow> jsval list \<Rightarrow> world \<Rightarrow> unit result" where
  "symCancelFunc run this args w =
     (let err = arg 0 args in
      if falsy err then Some (Throw mustHaveError, w)
      else if error (cellAt w this) \<noteq> JNull then ret () w
      else
        let w1 = setCell this (\<lambda>c. c\<lparr>error := err\<rparr>) w in
        andThen (forEach run (map snd (doneHandlers (cellAt w1 this))) w1) (\<lambda>_ w2.
          let w3 = setCell this (\<lambda>c. c\<lparr>doneHandlers := []\<rparr>) w2 in
          case unregParentFunc (cellAt w3 this) of
            None \<Rightarrow> ret () w3
          | Some u \<Rightarrow>
              andThen (run u w3) (\<lambda>_ w4.
                ret () (setCell this (\<lambda>c. c\<lparr>unregParentFunc := None\<rparr>) w4))))"

text \<open>Calling a zero-argument function, with \<open>run\<close> for the calls it makes in turn.\<close>

fun call :: "runner \<Rightarrow> closure \<Rightarrow> world \<Rightarrow> unit result" where
  "call run Noop w = ret () w"
| "call run (ParentDone this parentCtx) w =
     (let w1 = setCell this (\<lambda>c. c\<lparr>unregParentFunc := None\<rparr>) w
      in symCancelFunc run this [errorOf w1 parentCtx] w1)"
| "call run (DeadlineFire this) w = symCancelFunc run this [JError DeadlineError] w"
| "call run (Unregister this s) w =
     ret () (setCell this (\<lambda>c. c\<lparr>doneHandlers := filter (\<lambda>x. fst x \<noteq> s) (doneHandlers c)\<rparr>) w)"
| "call run (CancelTrigger this) w =
     symCancelFunc run this [JBool True, JError CancelledError] w"
| "call run (ExpiryReject p c) w = ret () (settlePromise p (Rejected (errorOf w c)) w)"
| "call run (UserLog n) w = ret () (w\<lparr>trace := trace w @ [UserRan n]\<rparr>)"
| "call run (UserThrow v) w = Some (Throw v, w)"
| "call run (UserSettle p s) w = ret () (if s = Pending then w else settlePromise p s w)"
| "call run (UserSeq fs) w = forEach run fs w"

text \<open>
  The interpreter: \<open>exec n f w\<close> calls \<open>f\<close> in \<open>w\<close> with at most \<open>n\<close> calls nested
  inside one another, and is \<open>None\<close> when that depth does not suffice.
\<close>

primrec exec :: "nat \<Rightarrow> closure \<Rightarrow> world \<Rightarrow> unit result" where
  "exec 0 = (\<lambda>f w. None)"
| "exec (Suc n) = (\<lambda>f w. call (exec n) f w)"

section \<open>Constructing contexts\<close>

definition background :: ctx where
  "background = EmptyContext Background"

definition todo :: ctx where
  "todo = EmptyContext Todo"

definition withValue :: "ctx \<Rightarrow> key \<Rightarrow> jsval \<Rightarrow> ctx" where
  "withValue parentCtx k v = ValueContext parentCtx k v"

text \<open>\<^verbatim>\<open>new\<close> allocates the object, with the field initialisers applied.\<close>

definition allocCell :: "world \<Rightarrow> addr \<times> world" where
  "allocCell w = (length (cells w), w\<lparr>cells := cells w @ [freshCell]\<rparr>)"

text \<open>
  The constructor of \<^verbatim>\<open>_CancelContext\<close>, run on the allocated object \<open>this\<close>.
  \<^verbatim>\<open>new Date()\<close> reads the clock of the store; \<^verbatim>\<open>setTimeout(f, tr)\<close> records the
  timer.
\<close>

definition initCancelContext :: "runner \<Rightarrow> addr \<Rightarrow> ctx \<Rightarrow> int option \<Rightarrow> world \<Rightarrow> unit result" where
  "initCancelContext run this parentCtx deadline w =
     andThen (doneHandler run parentCtx (ParentDone this parentCtx) w) (\<lambda>u w1.
       let w2 = setCell this (\<lambda>c. c\<lparr>unregParentFunc := Some u\<rparr>) w1 in
       case deadline of
         None \<Rightarrow> ret () w2
       | Some d \<Rightarrow>
           if error (cellAt w2 this) = JNull then
             let f = DeadlineFire this;
                 tr = d - clock w2
             in if tr \<le> 0 then run f w2
                else ret () (w2\<lparr>timers := timers w2 @ [(f, tr)]\<rparr>)
           else ret () w2)"

definition withDeadline :: "runner \<Rightarrow> ctx \<Rightarrow> int option \<Rightarrow> world \<Rightarrow> (ctx \<times> closure) result" where
  "withDeadline run parentCtx deadline w =
     (let (this, w0) = allocCell w;
          ctx = CancelContext parentCtx deadline this
      in andThen (initCancelContext run this parentCtx deadline w0) (\<lambda>_.
           ret (ctx, CancelTrigger this)))"

definition withTimeout :: "runner \<Rightarrow> ctx \<Rightarrow> int \<Rightarrow> world \<Rightarrow> (ctx \<times> closure) result" where
  "withTimeout run parentCtx timeout w =
     (let d = clock w;
          d = d + timeout
      in withDeadline run parentCtx (Some d) w)"

definition withCancel :: "runner \<Rightarrow> ctx \<Rightarrow> world \<Rightarrow> (ctx \<times> closure) result" where
  "withCancel run parentCtx w = withDeadline run parentCtx None w"

section \<open>Promise utilities\<close>

text \<open>
  \<^verbatim>\<open>expiryPromise(ctx)\<close>. An executor that throws rejects its promise with what was
  thrown.
\<close>

definition expiryPromise :: "runner \<Rightarrow> ctx \<Rightarrow> world \<Rightarrow> pid result" where
  "expiryPromise run ctx w =
     (let (p, w1) = newPromise Pending w in
      case doneHandler run ctx (ExpiryReject p ctx) w1 of
        None \<Rightarrow> None
      | Some (Throw e, w2) \<Rightarrow> ret p (settlePromise p (Rejected e) w2)
      | Some (Normal u, w2) \<Rightarrow> ret p w2)"

text \<open>
  What a caller's operation can do with the module while it runs: call a function it
  holds (a cancel trigger, an unregister function, a callback of its own), or register a
  done handler on a context, dropping the unregister function.
\<close>

datatype action = Invoke closure | Register ctx closure

fun act :: "runner \<Rightarrow> action \<Rightarrow> world \<Rightarrow> unit result" where
  "act run (Invoke g) w = run g w"
| "act run (Register c g) w = andThen (doneHandler run c g w) (\<lambda>u. ret ())"

fun acts :: "runner \<Rightarrow> action list \<Rightarrow> world \<Rightarrow> unit result" where
  "acts run [] w = ret () w"
| "acts run (a # as) w = andThen (act run a w) (\<lambda>_. acts run as)"

text \<open>
  A caller's operation \<^verbatim>\<open>f: () => Promise<T>\<close>: \<open>UserOp n as s\<close> records that it was
  started, does what \<open>as\<close> lists, and returns a new promise in state \<open>s\<close>; it throws
  what the first of its calls to throw throws. A promise returned pending is settled
  later, by the caller.
\<close>

datatype userop = UserOp nat "action list" settle

fun callOp :: "runner \<Rightarrow> userop \<Rightarrow> world \<Rightarrow> pid result" where
  "callOp run (UserOp n as s) w =
     andThen (acts run as (w\<lparr>trace := trace w @ [OpStarted n]\<rparr>)) (\<lambda>_ w1.
       let (q, w2) = newPromise s w1 in ret q w2)"

definition raceAt :: "world \<Rightarrow> rid \<Rightarrow> race" where
  "raceAt w r =
     (if r < length (races w) then races w ! r
      else \<lparr>aborted = False, cleanupFunc = None, outer = length (promises w)\<rparr>)"

text \<open>
  The body of the executor of \<^verbatim>\<open>raceContext\<close>, for the promise \<open>p\<close> and the activation
  \<open>r\<close>: \<^verbatim>\<open>f().then(..., reject); expiryPromise(ctx).catch(...)\<close>.
\<close>

definition raceExecutor :: "runner \<Rightarrow> ctx \<Rightarrow> userop \<Rightarrow> pid \<Rightarrow> rid \<Rightarrow> world \<Rightarrow> unit result" where
  "raceExecutor run ctx f p r w =
     andThen (callOp run f w) (\<lambda>q w3.
       let w4 = thenPromise q (Some (RaceFulfilled r)) (Some (RejectFn p)) w3
       in andThen (expiryPromise run ctx w4) (\<lambda>e w5.
            ret () (thenPromise e None (Some (RaceExpired r)) w5)))"

text \<open>
  \<^verbatim>\<open>raceContext(ctx, f, cleanupFunc)\<close>. When the executor throws, the promise under
  construction is rejected with what was thrown.
\<close>

definition raceContext :: "runner \<Rightarrow> ctx \<Rightarrow> userop \<Rightarrow> nat option \<Rightarrow> world \<Rightarrow> pid result" where
  "raceContext run ctx f cleanup w =
     (if errorOf w ctx \<noteq> JNull then
        (let (p, w1) = newPromise (Rejected (errorOf w ctx)) w in ret p w1)
      else
        let r = length (races w);
            (p, w1) = newPromise Pending w;
            w2 = w1\<lparr>races := races w1 @ [\<lparr>aborted = False, cleanupFunc = cleanup, outer = p\<rparr>]\<rparr>
        in case raceExecutor run ctx f p r w2 of
             None \<Rightarrow> None
           | Some (Throw e, w6) \<Rightarrow> ret p (settlePromise p (Rejected e) w6)
           | Some (Normal u, w6) \<Rightarrow> ret p w6)"

text \<open>Calling a promise callback with its argument.\<close>

fun callV :: "vclosure \<Rightarrow> jsval \<Rightarrow> world \<Rightarrow> world" where
  "callV (ResolveFn p) x w = settlePromise p (Fulfilled x) w"
| "callV (RejectFn p) e w = settlePromise p (Rejected e) w"
| "callV (RaceFulfilled r) x w =
     (let w1 = (case cleanupFunc (raceAt w r) of
                  Some n \<Rightarrow> if aborted (raceAt w r) then w\<lparr>trace := trace w @ [CleanupCalled n x]\<rparr> else w
                | None \<Rightarrow> w)
      in settlePromise (outer (raceAt w1 r)) (Fulfilled x) w1)"
| "callV (RaceExpired r) e w =
     (let w1 = w\<lparr>races := (races w)[r := (raceAt w r)\<lparr>aborted := True\<rparr>]\<rparr>
      in settlePromise (outer (raceAt w1 r)) (Rejected e) w1)"

text \<open>The job queue: the oldest job runs first.\<close>

definition runJob :: "world \<Rightarrow> world" where
  "runJob w = (case jobs w of [] \<Rightarrow> w | (f, v) # js \<Rightarrow> callV f v (w\<lparr>jobs := js\<rparr>))"

definition emptyWorld :: world where
  "emptyWorld =
     \<lparr>cells = [], nextSym = 0, timers = [], promises = [], races = [], jobs = [],
      trace = [], clock = 0\<rparr>"

section \<open>Notions used in the proofs\<close>

text \<open>
  The cancellable node that answers for a context: the node itself, or the nearest
  cancellable ancestor of a value node; none above a root.
\<close>

fun cancelCell :: "ctx \<Rightarrow> addr option" where
  "cancelCell (EmptyContext n) = None"
| "cancelCell (ValueContext parentCtx k v) = cancelCell parentCtx"
| "cancelCell (CancelContext parentCtx d this) = Some this"

text \<open>One interpreter finishes every call another one finishes, with the same outcome.\<close>

definition refines :: "runner \<Rightarrow> runner \<Rightarrow> bool" where
  "refines run run' = (\<forall>f w r. run f w = Some r \<longrightarrow> run' f w = Some r)"

text \<open>
  What a call can do to one node: set an absent error to a cause, drop handlers, clear
  the parent subscription.
\<close>

definition cellStep :: "cell \<Rightarrow> cell \<Rightarrow> bool" where
  "cellStep c c' =
     ((error c' = error c \<or> (error c = JNull \<and> \<not> falsy (error c')))
      \<and> set (doneHandlers c') \<subseteq> set (doneHandlers c)
      \<and> (unregParentFunc c' = unregParentFunc c \<or> unregParentFunc c' = None))"

inductive steps :: "world \<Rightarrow> world \<Rightarrow> bool" where
  same: "steps w w"
| update: "steps w w1 \<Longrightarrow> cellStep (cellAt w1 a) (f (cellAt w1 a)) \<Longrightarrow> steps w (setCell a f w1)"
| settle: "steps w w1 \<Longrightarrow> steps w (settlePromise p s w1)"
| log: "steps w w1 \<Longrightarrow> steps w (w1\<lparr>trace := trace w1 @ [ev]\<rparr>)"

text \<open>An interpreter all of whose calls change the store by such steps only.\<close>

definition stepping :: "runner \<Rightarrow> bool" where
  "stepping run = (\<forall>f w r w'. run f w = Some (r, w') \<longrightarrow> steps w w')"

text \<open>The allocated nodes that are still Active.\<close>

definition activeCells :: "world \<Rightarrow> addr set" where
  "activeCells w = {a. a < length (cells w) \<and> error (cellAt w a) = JNull}"

text \<open>
  The deadline the specification asks a node to report: the minimum of its own declared
  deadline, if any, and the deadline its parent reports.
\<close>

fun specMinDeadline :: "int option \<Rightarrow> int option \<Rightarrow> int option" where
  "specMinDeadline None q = q"
| "specMinDeadline (Some t) None = Some t"
| "specMinDeadline (Some t) (Some u) = Some (min t u)"

section \<open>Scenarios\<close>

text \<open>
  \<^verbatim>\<open>[c, cancel] = withCancel(background()); child = withCancel(c)[0]; cancel();\<close>
  and then the two errors \<^verbatim>\<open>c.error\<close> and \<^verbatim>\<open>child.error\<close>.
\<close>

definition cancelChildScenario :: "(jsval \<times> jsval) result" where
  "cancelChildScenario =
     andThen (withCancel (exec 3) background emptyWorld) (\<lambda>(c, cancel) w1.
     andThen (withCancel (exec 3) c w1) (\<lambda>(child, cancel2) w2.
     andThen (exec 3 cancel w2) (\<lambda>_ w3. ret (errorOf w3 c, errorOf w3 child) w3)))"

text \<open>
  \<^verbatim>\<open>[c, cancel] = withCancel(background()); let u = _noop;\<close>
  \<^verbatim>\<open>c.doneHandler(() => { log(1); u(); }); u = c.doneHandler(() => log(2)); cancel();\<close>
  The first handler calls the unregister function of the second, which is
  \<open>Unregister 0 1\<close>: the node is at address 0 and the second registration draws the
  symbol 1. The result is the unregister function of the second handler and the list of
  callbacks that ran.
\<close>

definition unregisterInPassScenario :: "(closure \<times> event list) result" where
  "unregisterInPassScenario =
     andThen (withCancel (exec 3) background emptyWorld) (\<lambda>(c, cancel) w1.
     andThen (doneHandler (exec 3) c (UserSeq [UserLog 1, Unregister 0 1]) w1) (\<lambda>u1 w2.
     andThen (doneHandler (exec 3) c (UserLog 2) w2) (\<lambda>u2 w3.
     andThen (exec 3 cancel w3) (\<lambda>_ w4. ret (u2, trace w4) w4))))"

text \<open>
  \<^verbatim>\<open>[c, cancel] = withCancel(background()); u = c.doneHandler(() => log(2)); u(); cancel();\<close>
  The handler is unregistered before the cancellation.
\<close>

definition unregisterBeforePassScenario :: "(event list) result" where
  "unregisterBeforePassScenario =
     andThen (withCancel (exec 3) background emptyWorld) (\<lambda>(c, cancel) w1.
     andThen (doneHandler (exec 3) c (UserLog 2) w1) (\<lambda>u w2.
     andThen (exec 3 u w2) (\<lambda>_ w3.
     andThen (exec 3 cancel w3) (\<lambda>_ w4. ret (trace w4) w4))))"

text \<open>A store with one cancellable node, already cancelled through its trigger.\<close>

definition doneWorld :: world where
  "doneWorld = emptyWorld\<lparr>cells := [\<lparr>error = JBool True, doneHandlers = [], unregParentFunc = None\<rparr>]\<rparr>"

definition doneCtx :: ctx where
  "doneCtx = CancelContext background None 0"

section \<open>Programs that use the module\<close>

text \<open>
  The functions a caller of the module can hold and call: cancel triggers, unregister
  functions, \<^verbatim>\<open>_noop\<close>, its own callbacks, and the timer callbacks, which the scheduler
  calls. The handlers the module registers for itself are closed over in the module.
\<close>

fun userCallable :: "closure \<Rightarrow> bool" where
  "userCallable (ParentDone this parentCtx) = False"
| "userCallable (ExpiryReject p c) = False"
| "userCallable (UserSeq fs) = list_all userCallable fs"
| "userCallable f = True"

text \<open>
  What a program can do with the module, one operation after another: call a function
  it holds, register a done handler, derive a cancellable context, make an expiry
  promise, race an operation, let the job queue run a job, settle a promise of its own,
  let time pass and timers leave the timer queue. \<open>later w w'\<close>: the store \<open>w'\<close> is
  reached from \<open>w\<close> by such operations.
\<close>

inductive later :: "world \<Rightarrow> world \<Rightarrow> bool" where
  now: "later w w"
| call: "later w w1 \<Longrightarrow> userCallable f \<Longrightarrow> exec n f w1 = Some (r, w2) \<Longrightarrow> later w w2"
| register: "later w w1 \<Longrightarrow> userCallable f \<Longrightarrow> doneHandler (exec n) c f w1 = Some (u, w2) \<Longrightarrow> later w w2"
| derive: "later w w1 \<Longrightarrow> withDeadline (exec n) c d w1 = Some (x, w2) \<Longrightarrow> later w w2"
| expiry: "later w w1 \<Longrightarrow> expiryPromise (exec n) c w1 = Some (p, w2) \<Longrightarrow> later w w2"
| race: "later w w1 \<Longrightarrow> raceContext (exec n) c op cl w1 = Some (p, w2) \<Longrightarrow> later w w2"
| job: "later w w1 \<Longrightarrow> later w (runJob w1)"
| settle: "later w w1 \<Longrightarrow> later w (settlePromise p s w1)"
| tick: "later w w1 \<Longrightarrow> later w (w1\<lparr>timers := ts, clock := t\<rparr>)"

text \<open>The functions of a caller that never throw of themselves.\<close>

fun calm :: "closure \<Rightarrow> bool" where
  "calm (ParentDone this parentCtx) = False"
| "calm (ExpiryReject p c) = False"
| "calm (UserThrow v) = False"
| "calm (UserSeq fs) = list_all calm fs"
| "calm f = True"

fun calmAction :: "action \<Rightarrow> bool" where
  "calmAction (Invoke g) = calm g"
| "calmAction (Register c g) = calm g"

fun calmOp :: "userop \<Rightarrow> bool" where
  "calmOp (UserOp n as s) = list_all calmAction as"

text \<open>
  The same operations, by a program none of whose functions throws: \<open>calmly w w'\<close>.
\<close>

inductive calmly :: "world \<Rightarrow> world \<Rightarrow> bool" where
  now: "calmly w w"
| call: "calmly w w1 \<Longrightarrow> calm f \<Longrightarrow> exec n f w1 = Some (r, w2) \<Longrightarrow> calmly w w2"
| register: "calmly w w1 \<Longrightarrow> calm f \<Longrightarrow> doneHandler (exec n) c f w1 = Some (u, w2) \<Longrightarrow> calmly w w2"
| derive: "calmly w w1 \<Longrightarrow> withDeadline (exec n) c d w1 = Some (x, w2) \<Longrightarrow> calmly w w2"
| expiry: "calmly w w1 \<Longrightarrow> expiryPromise (exec n) c w1 = Some (p, w2) \<Longrightarrow> calmly w w2"
| race: "calmly w w1 \<Longrightarrow> calmOp op \<Longrightarrow> raceContext (exec n) c op cl w1 = Some (p, w2) \<Longrightarrow> calmly w w2"
| job: "calmly w w1 \<Longrightarrow> calmly w (runJob w1)"
| settle: "calmly w w1 \<Longrightarrow> calmly w (settlePromise p s w1)"
| tick: "calmly w w1 \<Longrightarrow> calmly w (w1\<lparr>timers := ts, clock := t\<rparr>)"

text \<open>No node is lost and no error that is present changes.\<close>

definition keepsErrors :: "world \<Rightarrow> world \<Rightarrow> bool" where
  "keepsErrors w w' =
     (length (cells w) \<le> length (cells w')
      \<and> (\<forall>a. error (cellAt w a) \<noteq> JNull \<longrightarrow> error (cellAt w' a) = error (cellAt w a)))"

text \<open>The store after \<^verbatim>\<open>withCancel(background())\<close>.\<close>

definition activeWorld :: world where
  "activeWorld = emptyWorld\<lparr>cells := [\<lparr>error = JNull, doneHandlers = [], unregParentFunc = Some Noop\<rparr>]\<rparr>"

section \<open>Stores the module builds\<close>

text \<open>
  A handler that may stand in the handler list of the node at address \<open>a\<close>: the
  propagation handler of a child whose parent context answers to that node, the handler of
  an expiry promise, or a function of the caller that never throws.
\<close>

fun handlerOk :: "addr \<Rightarrow> closure \<Rightarrow> bool" where
  "handlerOk a (ParentDone this parentCtx) = (cancelCell parentCtx = Some a)"
| "handlerOk a (ExpiryReject p c) = True"
| "handlerOk a f = calm f"

text \<open>
  A node as the module leaves it when no function of the caller throws: its handlers are
  of these kinds, its parent subscription is an unregister function or \<^verbatim>\<open>_noop\<close>, and its
  error is absent or a value that passes the test of the Done transition.
\<close>

definition cellOk :: "addr \<Rightarrow> cell \<Rightarrow> bool" where
  "cellOk a c =
     (list_all (handlerOk a) (map snd (doneHandlers c))
      \<and> (case unregParentFunc c of None \<Rightarrow> True | Some u \<Rightarrow> calm u)
      \<and> (error c = JNull \<or> \<not> falsy (error c)))"

text \<open>A store all of whose nodes are such.\<close>

definition wellFormed :: "world \<Rightarrow> bool" where
  "wellFormed w = list_all (\<lambda>a. cellOk a (cells w ! a)) [0..<length (cells w)]"

text \<open>
  A call that finds what it needs: a propagation handler is called only once the parent
  it reads has an error.
\<close>

fun callable :: "world \<Rightarrow> closure \<Rightarrow> bool" where
  "callable w (ParentDone this parentCtx) = (\<not> falsy (errorOf w parentCtx))"
| "callable w (ExpiryReject p c) = True"
| "callable w f = calm f"

text \<open>An interpreter whose calls, in such a store, return normally to such a store.\<close>

definition safe :: "runner \<Rightarrow> bool" where
  "safe run =
     (\<forall>f w r w'. wellFormed w \<longrightarrow> callable w f \<longrightarrow> run f w = Some (r, w') \<longrightarrow>
        r = Normal () \<and> wellFormed w')"

section \<open>Handler lists of Done nodes\<close>

text \<open>The invariant of C10: a node whose error is present has no stored handler.\<close>

definition handlersCleared :: "world \<Rightarrow> bool" where
  "handlersCleared w = list_all (\<lambda>c. error c = JNull \<or> doneHandlers c = []) (cells w)"

text \<open>The invariant fails at an address.\<close>

definition violated :: "world \<Rightarrow> addr \<Rightarrow> bool" where
  "violated w a = (error (cellAt w a) \<noteq> JNull \<and> doneHandlers (cellAt w a) \<noteq> [])"

text \<open>It fails in the second store only where it failed in the first.\<close>

definition noNewViolation :: "world \<Rightarrow> world \<Rightarrow> bool" where
  "noNewViolation w w' = (\<forall>a. violated w' a \<longrightarrow> violated w a)"

text \<open>An interpreter whose calls, when they return normally, add no such failure.\<close>

definition clearing :: "runner \<Rightarrow> bool" where
  "clearing run = (\<forall>f w w'. run f w = Some (Normal (), w') \<longrightarrow> noNewViolation w w')"

text \<open>
  The functions of a list are fired from the store \<open>w\<close> to the store \<open>w'\<close>: each is
  called once, in the order of the list, in the store the one before it left, and each
  returns normally.
\<close>

fun fires :: "runner \<Rightarrow> closure list \<Rightarrow> world \<Rightarrow> world \<Rightarrow> bool" where
  "fires run [] w w' = (w' = w)"
| "fires run (h # hs) w w' =
     (case run h w of
        Some (Normal u, w1) \<Rightarrow> fires run hs w1 w'
      | _ \<Rightarrow> False)"

text \<open>
  \<^verbatim>\<open>[c, cancel] = withCancel(background()); c.doneHandler(() => { throw 7; });\<close>
  \<^verbatim>\<open>c.doneHandler(() => log(2)); cancel();\<close>
  The result is how the call of \<^verbatim>\<open>cancel\<close> ended, \<^verbatim>\<open>c.error\<close>, the number of handlers
  the node still stores, whether every node with an error has an empty handler list, and
  the callbacks that ran.
\<close>

definition throwingHandlerScenario :: "(unit completion \<times> jsval \<times> nat \<times> bool \<times> event list) option" where
  "throwingHandlerScenario =
     (case withCancel (exec 3) background emptyWorld of
        Some (Normal (c, cancel), w1) \<Rightarrow>
          (case doneHandler (exec 3) c (UserThrow (JNum 7)) w1 of
             Some (Normal u1, w2) \<Rightarrow>
               (case doneHandler (exec 3) c (UserLog 2) w2 of
                  Some (Normal u2, w3) \<Rightarrow>
                    (case exec 3 cancel w3 of
                       Some (r, w4) \<Rightarrow>
                         Some (r, errorOf w4 c, length (doneHandlers (cellAt w4 0)),
                               handlersCleared w4, trace w4)
                     | None \<Rightarrow> None)
                | _ \<Rightarrow> None)
           | _ \<Rightarrow> None)
      | _ \<Rightarrow> None)"

text \<open>
  The store after \<^verbatim>\<open>c = withCancel(background())[0]; c.doneHandler(() => log(1));\<close>
  \<^verbatim>\<open>c.doneHandler(() => log(2));\<close>
\<close>

definition logWorld :: world where
  "logWorld =
     emptyWorld\<lparr>cells := [\<lparr>error = JNull, doneHandlers = [(0, UserLog 1), (1, UserLog 2)],
                               unregParentFunc = Some Noop\<rparr>],
                 nextSym := 2\<rparr>"

section \<open>Chains of cancellable nodes\<close>

text \<open>
  Callbacks that leave the nodes alone: \<^verbatim>\<open>_noop\<close>, a caller's callback that logs or
  settles a promise, the handler of an expiry promise, and sequences of these.
\<close>

fun inert :: "closure \<Rightarrow> bool" where
  "inert Noop = True"
| "inert (UserLog n) = True"
| "inert (UserSettle p s) = True"
| "inert (ExpiryReject p c) = True"
| "inert (UserSeq fs) = list_all inert fs"
| "inert f = False"

text \<open>
  A handler on the node at \<open>a\<close> that lets a cause pass: the propagation handler of a
  context derived from that node (directly, or through value contexts), or an inert
  callback.
\<close>

fun propagating :: "addr \<Rightarrow> closure \<Rightarrow> bool" where
  "propagating a (ParentDone this parentCtx) = (cancelCell parentCtx = Some a)"
| "propagating a f = inert f"

text \<open>A store in which every handler stored on an Active node is such.\<close>

definition tame :: "world \<Rightarrow> bool" where
  "tame w =
     list_all (\<lambda>a. error (cells w ! a) = JNull \<longrightarrow>
                  list_all (propagating a) (map snd (doneHandlers (cells w ! a))))
       [0..<length (cells w)]"

text \<open>
  A chain below the node at \<open>a\<close>: each context is a cancellable node derived from the
  one before it (directly, or through value contexts), its propagation handler is among
  the handlers stored there, and it is still Active.
\<close>

fun chainFrom :: "world \<Rightarrow> addr \<Rightarrow> ctx list \<Rightarrow> bool" where
  "chainFrom w a [] = True"
| "chainFrom w a (CancelContext q d b # cs) =
     (cancelCell q = Some a
      \<and> ParentDone b q \<in> set (map snd (doneHandlers (cellAt w a)))
      \<and> b < length (cells w) \<and> error (cellAt w b) = JNull
      \<and> chainFrom w b cs)"
| "chainFrom w a (c # cs) = False"

text \<open>An interpreter whose calls of inert callbacks return normally and change no node.\<close>

definition quiet :: "runner \<Rightarrow> bool" where
  "quiet run = (\<forall>f w r w'. inert f \<longrightarrow> run f w = Some (r, w') \<longrightarrow> r = Normal () \<and> cells w' = cells w)"

text \<open>
  Between two stores only the cause \<open>e\<close> was handed down: no node was added, an error
  that was present is unchanged, a node that is still Active has the handlers it had, and
  a node that became Done has the error \<open>e\<close>.
\<close>

definition carried :: "jsval \<Rightarrow> world \<Rightarrow> world \<Rightarrow> bool" where
  "carried e w w' =
     (length (cells w') = length (cells w)
      \<and> (\<forall>x. (error (cellAt w x) \<noteq> JNull \<longrightarrow> error (cellAt w' x) = error (cellAt w x))
             \<and> (error (cellAt w' x) = JNull \<longrightarrow> doneHandlers (cellAt w' x) = doneHandlers (cellAt w x))
             \<and> (error (cellAt w x) = JNull \<longrightarrow> error (cellAt w' x) \<noteq> JNull \<longrightarrow> error (cellAt w' x) = e)))"

text \<open>
  Every node that became Done between two stores has taken the nodes subscribed to it
  along: they are Done in the second store.
\<close>

definition reached :: "world \<Rightarrow> world \<Rightarrow> bool" where
  "reached w w' =
     (\<forall>x b q. error (cellAt w x) = JNull \<longrightarrow> error (cellAt w' x) \<noteq> JNull \<longrightarrow>
        ParentDone b q \<in> set (map snd (doneHandlers (cellAt w x))) \<longrightarrow> b < length (cells w) \<longrightarrow>
        error (cellAt w' b) \<noteq> JNull)"

text \<open>
  An interpreter whose calls of a propagation handler, in such a store and once the
  parent has the error \<open>e\<close>, return normally and hand down \<open>e\<close> and nothing else.
\<close>

definition propagates :: "jsval \<Rightarrow> runner \<Rightarrow> bool" where
  "propagates e run =
     (\<forall>b q a w r w'. tame w \<longrightarrow> cancelCell q = Some a \<longrightarrow> error (cellAt w a) = e \<longrightarrow>
        run (ParentDone b q) w = Some (r, w') \<longrightarrow>
        r = Normal () \<and> carried e w w' \<and> reached w w'
        \<and> (b < length (cells w) \<longrightarrow> error (cellAt w' b) \<noteq> JNull))"

text \<open>
  A tree of four nodes: \<^verbatim>\<open>c0 = withCancel(background())[0]\<close>, with a logging handler;
  \<^verbatim>\<open>c1 = withCancel(c0)[0]\<close>; its younger sibling
  \<^verbatim>\<open>c2 = withCancel(withValue(c0, 'k', 1))[0]\<close>; and \<^verbatim>\<open>c3 = withTimeout(c2, 50)[0]\<close>.
\<close>

definition chainCtx0 :: ctx where
  "chainCtx0 = CancelContext background None 0"

definition chainCtx1 :: ctx where
  "chainCtx1 = CancelContext chainCtx0 None 1"

definition chainCtx2 :: ctx where
  "chainCtx2 = CancelContext (ValueContext chainCtx0 (StrKey ''k'') (JNum 1)) None 2"

definition chainCtx3 :: ctx where
  "chainCtx3 = CancelContext chainCtx2 (Some 50) 3"

definition chainScenario :: "(ctx list) result" where
  "chainScenario =
     andThen (withCancel (exec 1) background emptyWorld) (\<lambda>(c0, cancel0) w1.
     andThen (doneHandler (exec 1) c0 (UserLog 7) w1) (\<lambda>u w2.
     andThen (withCancel (exec 1) c0 w2) (\<lambda>(c1, cancel1) w3.
     andThen (withCancel (exec 1) (withValue c0 (StrKey ''k'') (JNum 1)) w3) (\<lambda>(c2, cancel2) w4.
     andThen (withTimeout (exec 1) c2 50 w4) (\<lambda>(c3, cancel3) w5.
       ret [c0, c1, c2, c3] w5)))))"

text \<open>The store these calls build.\<close>

definition chainWorld :: world where
  "chainWorld =
     \<lparr>cells =
        [\<lparr>error = JNull,
          doneHandlers = [(0, UserLog 7), (1, ParentDone 1 chainCtx0),
                          (2, ParentDone 2 (ValueContext chainCtx0 (StrKey ''k'') (JNum 1)))],
          unregParentFunc = Some Noop\<rparr>,
         \<lparr>error = JNull, doneHandlers = [], unregParentFunc = Some (Unregister 0 1)\<rparr>,
         \<lparr>error = JNull, doneHandlers = [(3, ParentDone 3 chainCtx2)],
          unregParentFunc = Some (Unregister 0 2)\<rparr>,
         \<lparr>error = JNull, doneHandlers = [], unregParentFunc = Some (Unregister 2 3)\<rparr>],
      nextSym = 4, timers = [(DeadlineFire 3, 50)], promises = [], races = [], jobs = [],
      trace = [], clock = 0\<rparr>"

text \<open>
  Deriving \<open>k\<close> cancellable contexts one from another with \<^verbatim>\<open>withCancel\<close>, starting
  from the context \<open>p\<close>.
\<close>

fun deriveChain :: "nat \<Rightarrow> ctx \<Rightarrow> world \<Rightarrow> (ctx list \<times> world) option" where
  "deriveChain 0 p w = Some ([], w)"
| "deriveChain (Suc k) p w =
     (case withCancel (exec 0) p w of
        Some (Normal (c, cancel), w1) \<Rightarrow>
          (case deriveChain k c w1 of
             Some (cs, w2) \<Rightarrow> Some (c # cs, w2)
           | None \<Rightarrow> None)
      | _ \<Rightarrow> None)"



section \<open>Races\<close>

text \<open>
  \<^verbatim>\<open>ctx = withTimeout(background(), 50)[0];\<close>
  \<^verbatim>\<open>p = raceContext(ctx, f, cleanup)\<close> where the operation \<^verbatim>\<open>f\<close> ends early when the
  context is done: \<^verbatim>\<open>f = () => new Promise(res => { ctx.doneHandler(() => res(42)); })\<close>;
  then the timer of \<^verbatim>\<open>ctx\<close> fires and the job queue runs its two jobs. The returned
  promise is the promise 0, the promise of \<^verbatim>\<open>f\<close> is the promise 1, and \<^verbatim>\<open>cleanup\<close> has
  the tag 9. The result is \<^verbatim>\<open>ctx.error\<close>, the state of \<^verbatim>\<open>p\<close>, what the caller saw of its
  functions being called, and whether the job queue is empty.
\<close>

definition inPassSettleScenario :: "(jsval \<times> settle \<times> event list \<times> bool) option" where
  "inPassSettleScenario =
     (case withTimeout (exec 3) background 50 emptyWorld of
        Some (Normal (ctx, cancel), w1) \<Rightarrow>
          (case raceContext (exec 3) ctx
                  (UserOp 1 [Register ctx (UserSettle 1 (Fulfilled (JNum 42)))] Pending) (Some 9) w1 of
             Some (Normal p, w2) \<Rightarrow>
               (case exec 3 (DeadlineFire 0) w2 of
                  Some (r, w3) \<Rightarrow>
                    (let w4 = runJob (runJob w3)
                     in Some (errorOf w4 ctx, pstate (promiseAt w4 p), trace w4, jobs w4 = []))
                | None \<Rightarrow> None)
           | _ \<Rightarrow> None)
      | _ \<Rightarrow> None)"

text \<open>
  The same with an operation that does not look at the context,
  \<^verbatim>\<open>f = () => new Promise(res => { resolveLater = res; })\<close>: the timer of \<^verbatim>\<open>ctx\<close> fires,
  the job queue runs, then the caller calls \<^verbatim>\<open>resolveLater(42)\<close> and the job queue runs.
\<close>

definition settleAfterPassScenario :: "(jsval \<times> settle \<times> event list \<times> bool) option" where
  "settleAfterPassScenario =
     (case withTimeout (exec 3) background 50 emptyWorld of
        Some (Normal (ctx, cancel), w1) \<Rightarrow>
          (case raceContext (exec 3) ctx (UserOp 1 [] Pending) (Some 9) w1 of
             Some (Normal p, w2) \<Rightarrow>
               (case exec 3 (DeadlineFire 0) w2 of
                  Some (r, w3) \<Rightarrow>
                    (case exec 3 (UserSettle 1 (Fulfilled (JNum 42))) (runJob w3) of
                       Some (r', w5) \<Rightarrow>
                         (let w6 = runJob w5
                          in Some (errorOf w6 ctx, pstate (promiseAt w6 p), trace w6, jobs w6 = []))
                     | None \<Rightarrow> None)
                | None \<Rightarrow> None)
           | _ \<Rightarrow> None)
      | _ \<Rightarrow> None)"

section \<open>Basic facts\<close>


lemma cellAt_setCell:
  "cellAt (setCell a f w) b = (if b = a \<and> a < length (cells w) then f (cellAt w a) else cellAt w b)"
  by (simp add: cellAt_def setCell_def)

lemma length_cells_setCell [simp]: "length (cells (setCell a f w)) = length (cells w)"
  by (simp add: setCell_def)

lemma andThen_Some:
  "andThen m k = Some (r, w') \<longleftrightarrow>
     (\<exists>e. m = Some (Throw e, w') \<and> r = Throw e) \<or> (\<exists>x w1. m = Some (Normal x, w1) \<and> k x w1 = Some (r, w'))"
  by (auto simp: andThen_def split: option.splits completion.splits prod.splits)

lemma andThen_None:
  "andThen m k = None \<longleftrightarrow> m = None \<or> (\<exists>x w1. m = Some (Normal x, w1) \<and> k x w1 = None)"
  by (auto simp: andThen_def split: option.splits completion.splits prod.splits)

lemma ret_Some [simp]: "ret x w = Some (r, w') \<longleftrightarrow> r = Normal x \<and> w' = w"
  by (auto simp: ret_def)

lemma forEach_Cons_Some:
  "forEach run (h # hs) w = Some (r, w') \<longleftrightarrow>
     (\<exists>e. run h w = Some (Throw e, w') \<and> r = Throw e)
     \<or> (\<exists>w1. run h w = Some (Normal (), w1) \<and> forEach run hs w1 = Some (r, w'))"
  by (simp add: andThen_Some)

lemma symCancelFunc_cases [consumes 1, case_names absent already handlerThrow noParent parentThrow completed]:
  assumes "symCancelFunc run this args w = Some (r, w')"
  obtains
    (absent) "falsy (arg 0 args)" "r = Throw mustHaveError" "w' = w"
  | (already) "\<not> falsy (arg 0 args)" "error (cellAt w this) \<noteq> JNull" "r = Normal ()" "w' = w"
  | (handlerThrow) e where "\<not> falsy (arg 0 args)" "error (cellAt w this) = JNull"
      "forEach run (map snd (doneHandlers (cellAt (setCell this (\<lambda>c. c\<lparr>error := arg 0 args\<rparr>) w) this)))
         (setCell this (\<lambda>c. c\<lparr>error := arg 0 args\<rparr>) w) = Some (Throw e, w')" "r = Throw e"
  | (noParent) w2 where "\<not> falsy (arg 0 args)" "error (cellAt w this) = JNull"
      "forEach run (map snd (doneHandlers (cellAt (setCell this (\<lambda>c. c\<lparr>error := arg 0 args\<rparr>) w) this)))
         (setCell this (\<lambda>c. c\<lparr>error := arg 0 args\<rparr>) w) = Some (Normal (), w2)"
      "unregParentFunc (cellAt (setCell this (\<lambda>c. c\<lparr>doneHandlers := []\<rparr>) w2) this) = None"
      "r = Normal ()" "w' = setCell this (\<lambda>c. c\<lparr>doneHandlers := []\<rparr>) w2"
  | (parentThrow) w2 u e where "\<not> falsy (arg 0 args)" "error (cellAt w this) = JNull"
      "forEach run (map snd (doneHandlers (cellAt (setCell this (\<lambda>c. c\<lparr>error := arg 0 args\<rparr>) w) this)))
         (setCell this (\<lambda>c. c\<lparr>error := arg 0 args\<rparr>) w) = Some (Normal (), w2)"
      "unregParentFunc (cellAt (setCell this (\<lambda>c. c\<lparr>doneHandlers := []\<rparr>) w2) this) = Some u"
      "run u (setCell this (\<lambda>c. c\<lparr>doneHandlers := []\<rparr>) w2) = Some (Throw e, w')" "r = Throw e"
  | (completed) w2 u w4 where "\<not> falsy (arg 0 args)" "error (cellAt w this) = JNull"
      "forEach run (map snd (doneHandlers (cellAt (setCell this (\<lambda>c. c\<lparr>error := arg 0 args\<rparr>) w) this)))
         (setCell this (\<lambda>c. c\<lparr>error := arg 0 args\<rparr>) w) = Some (Normal (), w2)"
      "unregParentFunc (cellAt (setCell this (\<lambda>c. c\<lparr>doneHandlers := []\<rparr>) w2) this) = Some u"
      "run u (setCell this (\<lambda>c. c\<lparr>doneHandlers := []\<rparr>) w2) = Some (Normal (), w4)"
      "r = Normal ()" "w' = setCell this (\<lambda>c. c\<lparr>unregParentFunc := None\<rparr>) w4"
proof -
  let ?w1 = "setCell this (\<lambda>c. c\<lparr>error := arg 0 args\<rparr>) w"
  show thesis
  proof (cases "falsy (arg 0 args)")
    case True
    with assms absent show ?thesis by (simp add: symCancelFunc_def)
  next
    case nf: False
    show ?thesis
    proof (cases "error (cellAt w this) = JNull")
      case False
      with assms nf already show ?thesis by (simp add: symCancelFunc_def)
    next
      case act: True
      from assms nf act have *: "andThen (forEach run (map snd (doneHandlers (cellAt ?w1 this))) ?w1) (\<lambda>_ w2.
          let w3 = setCell this (\<lambda>c. c\<lparr>doneHandlers := []\<rparr>) w2 in
          case unregParentFunc (cellAt w3 this) of
            None \<Rightarrow> ret () w3
          | Some u \<Rightarrow>
              andThen (run u w3) (\<lambda>_ w4.
                ret () (setCell this (\<lambda>c. c\<lparr>unregParentFunc := None\<rparr>) w4))) = Some (r, w')"
        by (simp add: symCancelFunc_def Let_def)
      then consider
        (a) e where "forEach run (map snd (doneHandlers (cellAt ?w1 this))) ?w1 = Some (Throw e, w')" "r = Throw e"
        | (b) w2 where "forEach run (map snd (doneHandlers (cellAt ?w1 this))) ?w1 = Some (Normal (), w2)"
           "(case unregParentFunc (cellAt (setCell this (\<lambda>c. c\<lparr>doneHandlers := []\<rparr>) w2) this) of
            None \<Rightarrow> ret () (setCell this (\<lambda>c. c\<lparr>doneHandlers := []\<rparr>) w2)
          | Some u \<Rightarrow>
              andThen (run u (setCell this (\<lambda>c. c\<lparr>doneHandlers := []\<rparr>) w2)) (\<lambda>_ w4.
                ret () (setCell this (\<lambda>c. c\<lparr>unregParentFunc := None\<rparr>) w4))) = Some (r, w')"
        unfolding andThen_Some Let_def by auto
      then show ?thesis
      proof cases
        case a
        with nf act handlerThrow show ?thesis by simp
      next
        case b
        show ?thesis
        proof (cases "unregParentFunc (cellAt (setCell this (\<lambda>c. c\<lparr>doneHandlers := []\<rparr>) w2) this)")
          case None
          with b nf act noParent show ?thesis by simp
        next
          case (Some u)
          with b(2) consider
            (c) e where "run u (setCell this (\<lambda>c. c\<lparr>doneHandlers := []\<rparr>) w2) = Some (Throw e, w')" "r = Throw e"
            | (d) w4 where "run u (setCell this (\<lambda>c. c\<lparr>doneHandlers := []\<rparr>) w2) = Some (Normal (), w4)"
               "r = Normal ()" "w' = setCell this (\<lambda>c. c\<lparr>unregParentFunc := None\<rparr>) w4"
            by (auto simp: andThen_Some)
          then show ?thesis
          proof cases
            case c
            with b(1) nf act Some parentThrow show ?thesis by simp
          next
            case d
            with b(1) nf act Some completed show ?thesis by simp
          qed
        qed
      qed
    qed
  qed
qed


section \<open>Call depth\<close>

lemma refinesD: "refines run run' \<Longrightarrow> run f w = Some r \<Longrightarrow> run' f w = Some r"
  unfolding refines_def by blast

lemma forEach_mono:
  "refines run run' \<Longrightarrow> forEach run fs w = Some r \<Longrightarrow> forEach run' fs w = Some r"
proof (induction fs arbitrary: w)
  case Nil
  then show ?case by simp
next
  case (Cons h hs)
  obtain c w' where r: "r = (c, w')" by (cases r)
  from Cons.prems(2) have "forEach run' (h # hs) w = Some (c, w')"
    unfolding r forEach_Cons_Some
    using Cons.IH [OF Cons.prems(1), unfolded r] refinesD [OF Cons.prems(1)] by blast
  then show ?case by (simp add: r)
qed

lemma symCancelFunc_mono:
  assumes "refines run run'" and "symCancelFunc run this args w = Some r"
  shows "symCancelFunc run' this args w = Some r"
proof -
  obtain c w' where r: "r = (c, w')" by (cases r)
  note fe = forEach_mono [OF assms(1)] and rn = refinesD [OF assms(1)]
  from assms(2) [unfolded r] show ?thesis
  proof (cases rule: symCancelFunc_cases)
    case absent
    then show ?thesis by (simp add: symCancelFunc_def r)
  next
    case already
    then show ?thesis by (simp add: symCancelFunc_def r ret_def)
  next
    case (handlerThrow e)
    from fe [OF handlerThrow(3)] handlerThrow(1,2,4) show ?thesis
      by (simp add: symCancelFunc_def r Let_def andThen_def)
  next
    case (noParent w2)
    from fe [OF noParent(3)] noParent(1,2,4,5,6) show ?thesis
      by (simp add: symCancelFunc_def r Let_def andThen_def ret_def)
  next
    case (parentThrow w2 u e)
    from fe [OF parentThrow(3)] rn [OF parentThrow(5)] parentThrow(1,2,4,6) show ?thesis
      by (simp add: symCancelFunc_def r Let_def andThen_def)
  next
    case (completed w2 u w4)
    from fe [OF completed(3)] rn [OF completed(5)] completed(1,2,4,6,7) show ?thesis
      by (simp add: symCancelFunc_def r Let_def andThen_def ret_def)
  qed
qed

lemma call_mono:
  "refines run run' \<Longrightarrow> call run f w = Some r \<Longrightarrow> call run' f w = Some r"
  by (cases f) (auto simp: Let_def intro: symCancelFunc_mono forEach_mono)

lemma exec_Suc_mono: "refines (exec n) (exec (Suc n))"
proof (induction n)
  case 0
  show ?case by (simp add: refines_def)
next
  case (Suc n)
  show ?case
    unfolding refines_def
  proof (intro allI impI)
    fix f w r
    assume "exec (Suc n) f w = Some r"
    then have "call (exec n) f w = Some r" by simp
    from call_mono [OF Suc this] show "exec (Suc (Suc n)) f w = Some r" by simp
  qed
qed

lemma exec_mono: "n \<le> m \<Longrightarrow> exec n f w = Some r \<Longrightarrow> exec m f w = Some r"
proof (induction m)
  case 0
  then show ?case by simp
next
  case (Suc m)
  show ?case
  proof (cases "n = Suc m")
    case True
    with Suc.prems show ?thesis by simp
  next
    case False
    with Suc have "exec m f w = Some r" by simp
    from refinesD [OF exec_Suc_mono this] show ?thesis .
  qed
qed

lemma refines_exec: "n \<le> m \<Longrightarrow> refines (exec n) (exec m)"
  by (simp add: refines_def exec_mono)


section \<open>What a call changes\<close>

lemma steps_setCell: "cellStep (cellAt w a) (f (cellAt w a)) \<Longrightarrow> steps w (setCell a f w)"
  by (intro steps.update steps.same)

lemma steps_trans: "steps w1 w2 \<Longrightarrow> steps w w1 \<Longrightarrow> steps w w2"
  by (induction rule: steps.induct) (auto intro: steps.intros)

lemma steppingD: "stepping run \<Longrightarrow> run f w = Some (r, w') \<Longrightarrow> steps w w'"
  unfolding stepping_def by blast

lemma forEach_steps:
  "stepping run \<Longrightarrow> forEach run fs w = Some (r, w') \<Longrightarrow> steps w w'"
proof (induction fs arbitrary: w)
  case Nil
  then show ?case by (simp add: steps.same)
next
  case (Cons h hs)
  from Cons.prems(2) show ?case
    unfolding forEach_Cons_Some
    using Cons.IH [OF Cons.prems(1)] steppingD [OF Cons.prems(1)] steps_trans by blast
qed

lemma symCancelFunc_steps:
  assumes "stepping run" and "symCancelFunc run this args w = Some (r, w')"
  shows "steps w w'"
proof -
  note fe = forEach_steps [OF assms(1)] and rn = steppingD [OF assms(1)]
  let ?w1 = "setCell this (\<lambda>c. c\<lparr>error := arg 0 args\<rparr>) w"
  from assms(2) show ?thesis
  proof (cases rule: symCancelFunc_cases)
    case absent
    then show ?thesis by (simp add: steps.same)
  next
    case already
    then show ?thesis by (simp add: steps.same)
  next
    case (handlerThrow e)
    have "steps w ?w1" using handlerThrow(1,2) by (intro steps_setCell) (simp add: cellStep_def)
    with fe [OF handlerThrow(3)] show ?thesis by (rule steps_trans)
  next
    case (noParent w2)
    have "steps w ?w1" using noParent(1,2) by (intro steps_setCell) (simp add: cellStep_def)
    with fe [OF noParent(3)] have "steps w w2" by (rule steps_trans)
    then show ?thesis unfolding noParent by (rule steps.update) (simp add: cellStep_def)
  next
    case (parentThrow w2 u e)
    have "steps w ?w1" using parentThrow(1,2) by (intro steps_setCell) (simp add: cellStep_def)
    with fe [OF parentThrow(3)] have "steps w w2" by (rule steps_trans)
    then have "steps w (setCell this (\<lambda>c. c\<lparr>doneHandlers := []\<rparr>) w2)"
      by (rule steps.update) (simp add: cellStep_def)
    with rn [OF parentThrow(5)] show ?thesis by (rule steps_trans)
  next
    case (completed w2 u w4)
    have "steps w ?w1" using completed(1,2) by (intro steps_setCell) (simp add: cellStep_def)
    with fe [OF completed(3)] have "steps w w2" by (rule steps_trans)
    then have "steps w (setCell this (\<lambda>c. c\<lparr>doneHandlers := []\<rparr>) w2)"
      by (rule steps.update) (simp add: cellStep_def)
    with rn [OF completed(5)] have "steps w w4" by (rule steps_trans)
    then show ?thesis unfolding completed by (rule steps.update) (simp add: cellStep_def)
  qed
qed

lemma call_steps:
  assumes "stepping run" and "call run f w = Some (r, w')"
  shows "steps w w'"
proof (cases f)
  case (ParentDone this parentCtx)
  let ?w1 = "setCell this (\<lambda>c. c\<lparr>unregParentFunc := None\<rparr>) w"
  have "steps w ?w1" by (intro steps_setCell) (simp add: cellStep_def)
  moreover from assms(2) ParentDone have "steps ?w1 w'"
    by (auto simp: Let_def intro: symCancelFunc_steps [OF assms(1)])
  ultimately show ?thesis using steps_trans by blast
next
  case (Unregister this s)
  with assms(2) show ?thesis
    by (auto intro!: steps_setCell simp: cellStep_def)
qed (use assms in \<open>auto intro: symCancelFunc_steps forEach_steps steps.intros\<close>)

lemma exec_stepping: "stepping (exec n)"
proof (induction n)
  case 0
  show ?case by (simp add: stepping_def)
next
  case (Suc n)
  show ?case unfolding stepping_def
    using call_steps [OF Suc] by simp
qed

lemma exec_steps: "exec n f w = Some (r, w') \<Longrightarrow> steps w w'"
  using exec_stepping steppingD by blast

lemma steps_length: "steps w w' \<Longrightarrow> length (cells w') = length (cells w)"
  by (induction rule: steps.induct) (simp_all add: settlePromise_def)

lemma cellAt_settlePromise [simp]: "cellAt (settlePromise p s w) a = cellAt w a"
  by (simp add: settlePromise_def cellAt_def)

lemma cellAt_trace [simp]: "cellAt (w\<lparr>trace := t\<rparr>) a = cellAt w a"
  by (simp add: cellAt_def)

lemma steps_error:
  "steps w w' \<Longrightarrow> error (cellAt w a) \<noteq> JNull \<Longrightarrow> error (cellAt w' a) = error (cellAt w a)"
  by (induction rule: steps.induct) (auto simp: cellAt_setCell cellStep_def)


section \<open>Every call ends\<close>

lemma finite_activeCells [simp]: "finite (activeCells w)"
  by (simp add: activeCells_def)

lemma steps_activeCells: "steps w w' \<Longrightarrow> activeCells w' \<subseteq> activeCells w"
  using steps_error [of w w'] steps_length [of w w'] by (fastforce simp: activeCells_def)

lemma steps_active: "steps w w' \<Longrightarrow> card (activeCells w') \<le> card (activeCells w)"
  by (simp add: steps_activeCells card_mono)

lemma setError_active:
  assumes "this < length (cells w)" and "error (cellAt w this) = JNull" and "e \<noteq> JNull"
  shows "card (activeCells (setCell this (\<lambda>c. c\<lparr>error := e\<rparr>) w)) < card (activeCells w)"
proof (rule psubset_card_mono)
  show "finite (activeCells w)" by simp
  have "this \<in> activeCells w" using assms by (simp add: activeCells_def)
  moreover have "this \<notin> activeCells (setCell this (\<lambda>c. c\<lparr>error := e\<rparr>) w)"
    using assms by (simp add: activeCells_def cellAt_setCell)
  moreover have "activeCells (setCell this (\<lambda>c. c\<lparr>error := e\<rparr>) w) \<subseteq> activeCells w"
    using assms by (auto simp: activeCells_def cellAt_setCell split: if_splits)
  ultimately show "activeCells (setCell this (\<lambda>c. c\<lparr>error := e\<rparr>) w) \<subset> activeCells w" by blast
qed

lemma activeCells_setCell_other:
  "error (f (cellAt w a)) = error (cellAt w a) \<Longrightarrow> activeCells (setCell a f w) = activeCells w"
  by (auto simp: activeCells_def cellAt_setCell)

lemma falsy_JNull: "\<not> falsy e \<Longrightarrow> e \<noteq> JNull"
  by auto

lemma forEach_terminates:
  assumes "\<And>f w. f \<in> set fs \<Longrightarrow> card (activeCells w) \<le> k \<Longrightarrow> \<exists>n r. exec n f w = Some r"
    and "card (activeCells w) \<le> k"
  shows "\<exists>n r. forEach (exec n) fs w = Some r"
  using assms
proof (induction fs arbitrary: w)
  case Nil
  show ?case by (simp add: ret_def)
next
  case (Cons h hs)
  from Cons.prems obtain n1 c w1 where h: "exec n1 h w = Some (c, w1)" by fastforce
  show ?case
  proof (cases c)
    case (Throw e)
    with h have "forEach (exec n1) (h # hs) w = Some (Throw e, w1)" by (simp add: andThen_def)
    then show ?thesis by blast
  next
    case (Normal u)
    from exec_steps [OF h] Cons.prems(2) have "card (activeCells w1) \<le> k"
      using steps_active le_trans by blast
    with Cons.IH Cons.prems(1) obtain n2 r2 where t: "forEach (exec n2) hs w1 = Some r2"
      by (metis list.set_intros(2))
    have "exec (max n1 n2) h w = Some (Normal (), w1)"
      using exec_mono [OF _ h, of "max n1 n2"] Normal by simp
    moreover have "forEach (exec (max n1 n2)) hs w1 = Some r2"
      using forEach_mono [OF refines_exec t, of "max n1 n2"] by simp
    ultimately have "forEach (exec (max n1 n2)) (h # hs) w = Some r2" by (simp add: andThen_def)
    then show ?thesis by blast
  qed
qed

lemma symCancelFunc_terminates:
  assumes IH: "\<And>f w. card (activeCells w) < k \<Longrightarrow> \<exists>n r. exec n f w = Some r"
    and k: "card (activeCells w) \<le> k"
  shows "\<exists>n r. symCancelFunc (exec n) this args w = Some r"
proof -
  let ?e = "arg 0 args"
  let ?w1 = "setCell this (\<lambda>c. c\<lparr>error := ?e\<rparr>) w"
  let ?hs = "map snd (doneHandlers (cellAt ?w1 this))"
  consider (trivial) "falsy ?e \<or> error (cellAt w this) \<noteq> JNull"
    | (dangling) "\<not> falsy ?e" "error (cellAt w this) = JNull" "\<not> this < length (cells w)"
    | (live) "\<not> falsy ?e" "error (cellAt w this) = JNull" "this < length (cells w)"
    by blast
  then show ?thesis
  proof cases
    case trivial
    then show ?thesis by (auto simp: symCancelFunc_def Let_def)
  next
    case dangling
    then show ?thesis
      by (simp add: symCancelFunc_def Let_def cellAt_def setCell_def freshCell_def andThen_def ret_def)
  next
    case live
    have lt: "card (activeCells ?w1) < k"
      using setError_active [OF live(3,2) falsy_JNull [OF live(1)]] k by simp
    have "\<exists>n r. forEach (exec n) ?hs ?w1 = Some r"
    proof (rule forEach_terminates)
      show "card (activeCells ?w1) \<le> card (activeCells ?w1)" by simp
    next
      fix f w'
      assume "card (activeCells w') \<le> card (activeCells ?w1)"
      with lt have "card (activeCells w') < k" by simp
      then show "\<exists>n r. exec n f w' = Some r" by (rule IH)
    qed
    then obtain n1 c w2 where fe: "forEach (exec n1) ?hs ?w1 = Some (c, w2)" by fastforce
    show ?thesis
    proof (cases c)
      case (Throw e)
      with fe live have "symCancelFunc (exec n1) this args w = Some (Throw e, w2)"
        by (simp add: symCancelFunc_def Let_def andThen_def)
      then show ?thesis by blast
    next
      case (Normal x)
      let ?w3 = "setCell this (\<lambda>c. c\<lparr>doneHandlers := []\<rparr>) w2"
      have "card (activeCells w2) < k"
        using steps_active [OF forEach_steps [OF exec_stepping fe]] lt by simp
      then have lt3: "card (activeCells ?w3) < k"
        by (simp add: activeCells_setCell_other)
      show ?thesis
      proof (cases "unregParentFunc (cellAt ?w3 this)")
        case None
        with fe Normal live have "symCancelFunc (exec n1) this args w = Some (Normal (), ?w3)"
          by (simp add: symCancelFunc_def Let_def andThen_def ret_def)
        then show ?thesis by blast
      next
        case (Some u)
        from IH [OF lt3] obtain n2 c2 w4 where u: "exec n2 u ?w3 = Some (c2, w4)" by fastforce
        let ?n = "max n1 n2"
        have fe': "forEach (exec ?n) ?hs ?w1 = Some (Normal (), w2)"
          using forEach_mono [OF refines_exec fe, of ?n] Normal by simp
        have u': "exec ?n u ?w3 = Some (c2, w4)"
          using exec_mono [OF _ u, of ?n] by simp
        have "\<exists>r. symCancelFunc (exec ?n) this args w = Some r"
          using fe' u' Some live
          by (cases c2) (simp_all add: symCancelFunc_def Let_def andThen_def ret_def)
        then show ?thesis by blast
      qed
    qed
  qed
qed

lemma exec_terminates_bounded:
  "card (activeCells w) \<le> k \<Longrightarrow> \<exists>n r. exec n f w = Some r"
proof (induction k arbitrary: f w rule: less_induct)
  case (less k)
  have small: "\<exists>n r. exec n f w = Some r" if "card (activeCells w) < k" for f w
    using less.IH [OF that] by simp
  have sym: "\<exists>n r. symCancelFunc (exec n) this args w = Some r"
    if "card (activeCells w) \<le> k" for this args w
    using symCancelFunc_terminates [OF small that] .
  have "\<forall>w. card (activeCells w) \<le> k \<longrightarrow> (\<exists>n r. exec n f w = Some r)"
  proof (induction f)
    case Noop
    show ?case by (intro allI impI exI [of _ "Suc 0"]) (simp add: ret_def)
  next
    case (ParentDone this parentCtx)
    show ?case
    proof (intro allI impI)
      fix w assume k: "card (activeCells w) \<le> k"
      let ?w1 = "setCell this (\<lambda>c. c\<lparr>unregParentFunc := None\<rparr>) w"
      have "card (activeCells ?w1) \<le> k" using k by (simp add: activeCells_setCell_other)
      from sym [OF this] obtain n r where "symCancelFunc (exec n) this [errorOf ?w1 parentCtx] ?w1 = Some r"
        by blast
      then have "exec (Suc n) (ParentDone this parentCtx) w = Some r" by (simp add: Let_def)
      then show "\<exists>n r. exec n (ParentDone this parentCtx) w = Some r" by blast
    qed
  next
    case (DeadlineFire this)
    show ?case
    proof (intro allI impI)
      fix w assume k: "card (activeCells w) \<le> k"
      from sym [OF this] obtain n r where "symCancelFunc (exec n) this [JError DeadlineError] w = Some r"
        by blast
      then have "exec (Suc n) (DeadlineFire this) w = Some r" by simp
      then show "\<exists>n r. exec n (DeadlineFire this) w = Some r" by blast
    qed
  next
    case (Unregister this s)
    show ?case by (intro allI impI exI [of _ "Suc 0"]) (simp add: ret_def)
  next
    case (CancelTrigger this)
    show ?case
    proof (intro allI impI)
      fix w assume k: "card (activeCells w) \<le> k"
      from sym [OF this] obtain n r
        where "symCancelFunc (exec n) this [JBool True, JError CancelledError] w = Some r"
        by blast
      then have "exec (Suc n) (CancelTrigger this) w = Some r" by simp
      then show "\<exists>n r. exec n (CancelTrigger this) w = Some r" by blast
    qed
  next
    case (ExpiryReject p c)
    show ?case by (intro allI impI exI [of _ "Suc 0"]) (simp add: ret_def)
  next
    case (UserLog m)
    show ?case by (intro allI impI exI [of _ "Suc 0"]) (simp add: ret_def)
  next
    case (UserThrow v)
    show ?case by (intro allI impI exI [of _ "Suc 0"]) simp
  next
    case (UserSettle p s)
    show ?case by (intro allI impI exI [of _ "Suc 0"]) (simp add: ret_def)
  next
    case (UserSeq fs)
    show ?case
    proof (intro allI impI)
      fix w assume k: "card (activeCells w) \<le> k"
      have "\<exists>n r. forEach (exec n) fs w = Some r"
        using UserSeq k by (intro forEach_terminates [where k = k]) auto
      then obtain n r where "forEach (exec n) fs w = Some r" by blast
      then have "exec (Suc n) (UserSeq fs) w = Some r" by simp
      then show "\<exists>n r. exec n (UserSeq fs) w = Some r" by blast
    qed
  qed
  with less.prems show ?case by blast
qed

lemma exec_terminates: "\<exists>n r. exec n f w = Some r"
  using exec_terminates_bounded [of w "card (activeCells w)"] by simp


section \<open>Contexts and their nodes\<close>

lemma doneHandler_cancelCell:
  "doneHandler run c f w =
     (case cancelCell c of
        None \<Rightarrow> ret Noop w
      | Some a \<Rightarrow> doneHandler run (CancelContext background None a) f w)"
  by (induction c) (simp_all split: option.splits)

lemma errorOf_cancelCell:
  "errorOf w c = (case cancelCell c of None \<Rightarrow> JNull | Some a \<Rightarrow> error (cellAt w a))"
  by (induction c) simp_all

section \<open>The explicit trigger\<close>

text \<open>
  C1. The trigger returned by \<^verbatim>\<open>withCancel\<close> calls the Done transition with the
  arguments \<^verbatim>\<open>(true, cancelledError)\<close>; the transition reads its first parameter only.
  In the end-to-end scenario of the specification both \<^verbatim>\<open>c.error\<close> and
  \<^verbatim>\<open>child.error\<close> are therefore \<^verbatim>\<open>true\<close>, not the Cancelled cause.
\<close>

theorem cancel_trigger_sets_true:
  "map_option fst cancelChildScenario = Some (Normal (JBool True, JBool True))
   \<and> map_option fst cancelChildScenario \<noteq> Some (Normal (JError CancelledError, JError CancelledError))"
  by code_simp

section \<open>Reported deadline\<close>

text \<open>
  C2, as stated: a cancellable node whose own deadline (200) is later than the deadline
  its parent reports (100) would report the minimum. It reports its own.
\<close>

theorem deadline_not_minimum:
  "deadlineOf (CancelContext (CancelContext background (Some 100) 0) (Some 200) 1)
     \<noteq> specMinDeadline (Some 200) (deadlineOf (CancelContext background (Some 100) 0))"
  by simp

text \<open>
  C2, amended. A node reports its own declared deadline when it has one and its parent's
  reported deadline otherwise (a root reports none). This is the minimum of the two
  whenever the node declares no deadline, or the parent reports none, or the node's own
  deadline is not later than the parent's.
\<close>

theorem deadline_own_else_parent:
  "deadlineOf (EmptyContext n) = None
   \<and> deadlineOf (ValueContext parentCtx k v) = deadlineOf parentCtx
   \<and> deadlineOf (CancelContext parentCtx None this) = deadlineOf parentCtx
   \<and> deadlineOf (CancelContext parentCtx (Some t) this) = Some t
   \<and> deadlineOf (CancelContext parentCtx None this) = specMinDeadline None (deadlineOf parentCtx)
   \<and> ((case deadlineOf parentCtx of None \<Rightarrow> True | Some u \<Rightarrow> t \<le> u) \<longrightarrow>
        deadlineOf (CancelContext parentCtx (Some t) this) = specMinDeadline (Some t) (deadlineOf parentCtx))"
  by (cases "deadlineOf parentCtx") simp_all

theorem deadline_own_else_parent_witness:
  "(case deadlineOf (CancelContext background (Some 100) 0) of None \<Rightarrow> True | Some u \<Rightarrow> 50 \<le> u)
   \<and> deadlineOf (CancelContext (CancelContext background (Some 100) 0) (Some 50) 1) = Some 50
   \<and> deadlineOf (CancelContext (CancelContext background (Some 100) 0) (Some 50) 1)
       = specMinDeadline (Some 50) (deadlineOf (CancelContext background (Some 100) 0))"
  using deadline_own_else_parent [of Background "CancelContext background (Some 100) 0" "StrKey []" JNull 1 50]
  by simp

section \<open>Unregistering during the firing pass\<close>

text \<open>
  C3. A handler whose unregister function is called by an earlier handler of the same
  firing pass is still called: the loop runs over the array it started with. Here the
  first handler logs 1 and calls \<open>Unregister 0 1\<close>, the unregister function of the
  second; the second runs all the same and logs 2. Unregistered before the
  cancellation, the handler is not called.
\<close>

theorem unregister_in_pass_still_fires:
  "map_option fst unregisterInPassScenario = Some (Normal (Unregister 0 1, [UserRan 1, UserRan 2]))
   \<and> map_option fst unregisterBeforePassScenario = Some (Normal [])"
  by code_simp

section \<open>Racing against a context that is already Done\<close>

text \<open>
  C7. When \<^verbatim>\<open>ctx.error\<close> is present at the call, \<^verbatim>\<open>raceContext\<close> returns a promise
  rejected with \<^verbatim>\<open>ctx.error\<close>; nothing else in the store changes, in particular the
  operation is not started and no handler is registered.
\<close>

theorem raceContext_already_done:
  "errorOf w ctx \<noteq> JNull \<Longrightarrow>
   raceContext run ctx f cleanup w =
     Some (Normal (length (promises w)),
           w\<lparr>promises := promises w @ [\<lparr>pstate = Rejected (errorOf w ctx), reactions = []\<rparr>]\<rparr>)"
  by (simp add: raceContext_def newPromise_def ret_def)

theorem raceContext_already_done_witness:
  "errorOf doneWorld doneCtx \<noteq> JNull
   \<and> raceContext (exec 0) doneCtx (UserOp 1 [] Pending) None doneWorld =
       Some (Normal 0, doneWorld\<lparr>promises := [\<lparr>pstate = Rejected (JBool True), reactions = []\<rparr>]\<rparr>)"
  using raceContext_already_done [of doneWorld doneCtx "exec 0" "UserOp 1 [] Pending" None]
  by (simp add: doneWorld_def doneCtx_def emptyWorld_def cellAt_def)

section \<open>A deadline in the past\<close>

lemma initCancelContext_past:
  assumes "errorOf w parentCtx = JNull" and "d - clock w \<le> 0" and "this = length (cells w)"
  shows "\<exists>w'. initCancelContext (exec (Suc (Suc n))) this parentCtx (Some d) (snd (allocCell w)) = Some (Normal (), w')
          \<and> error (cellAt w' this) = JError DeadlineError
          \<and> timers w' = timers w"
proof (cases "cancelCell parentCtx")
  case None
  then show ?thesis using assms
    by (simp add: initCancelContext_def doneHandler_cancelCell [of _ parentCtx] allocCell_def
       andThen_def ret_def Let_def cellAt_def setCell_def symCancelFunc_def freshCell_def)
next
  case (Some pa)
  with assms(1) have pa: "error (cellAt w pa) = JNull" by (simp add: errorOf_cancelCell)
  consider "pa < length (cells w)" | "pa = length (cells w)" | "pa > length (cells w)" by linarith
  then show ?thesis
  proof cases
    case 1
    then show ?thesis using assms Some pa
    by (simp add: initCancelContext_def doneHandler_cancelCell [of _ parentCtx] allocCell_def
       andThen_def ret_def Let_def cellAt_def setCell_def symCancelFunc_def freshCell_def nth_append)
  next
    case 2
    then show ?thesis using assms Some pa
    by (simp add: initCancelContext_def doneHandler_cancelCell [of _ parentCtx] allocCell_def errorOf_cancelCell [of _ parentCtx]
       andThen_def ret_def Let_def cellAt_def setCell_def symCancelFunc_def freshCell_def nth_append)
  next
    case 3
    then show ?thesis using assms Some pa
    by (simp add: initCancelContext_def doneHandler_cancelCell [of _ parentCtx] allocCell_def
       andThen_def ret_def Let_def cellAt_def setCell_def symCancelFunc_def freshCell_def nth_append)
  qed
qed


text \<open>
  C9. Under a parent whose error is absent, a cancellable node constructed with a
  deadline that is not after the current time is Done with the deadline error when the
  constructing call returns, and no timer has been added. A call depth of two is enough.
\<close>

theorem past_deadline_done_in_constructor:
  assumes "errorOf w parentCtx = JNull" and "d - clock w \<le> 0"
  shows "\<exists>w'. withDeadline (exec (Suc (Suc n))) parentCtx (Some d) w
             = Some (Normal (CancelContext parentCtx (Some d) (length (cells w)),
                             CancelTrigger (length (cells w))), w')
          \<and> errorOf w' (CancelContext parentCtx (Some d) (length (cells w))) = JError DeadlineError
          \<and> timers w' = timers w"
  using initCancelContext_past [OF assms refl, of n]
  by (auto simp: withDeadline_def andThen_def allocCell_def)

theorem past_deadline_done_in_constructor_witness:
  "errorOf emptyWorld background = JNull \<and> (-5) - clock emptyWorld \<le> 0
   \<and> (\<exists>w'. withDeadline (exec (Suc (Suc 0))) background (Some (-5)) emptyWorld
             = Some (Normal (CancelContext background (Some (-5)) (length (cells emptyWorld)),
                             CancelTrigger (length (cells emptyWorld))), w')
          \<and> errorOf w' (CancelContext background (Some (-5)) (length (cells emptyWorld))) = JError DeadlineError
          \<and> timers w' = timers emptyWorld)"
proof -
  have h1: "errorOf emptyWorld background = JNull" by (simp add: background_def)
  have h2: "(-5) - clock emptyWorld \<le> 0" by (simp add: emptyWorld_def)
  from past_deadline_done_in_constructor [OF h1 h2, of 0] h1 h2 show ?thesis by blast
qed

section \<open>Absent cause\<close>

text \<open>
  C8. The Done transition called with an absent cause (\<^verbatim>\<open>null\<close>, \<^verbatim>\<open>undefined\<close>, or no
  argument at all) throws, whatever the state of the node, and the store it leaves is
  the store it was called in: no field of any node has changed.
\<close>

theorem symCancelFunc_absent_cause_throws:
  "symCancelFunc run this [JNull] w = Some (Throw mustHaveError, w)
   \<and> symCancelFunc run this [JUndefined] w = Some (Throw mustHaveError, w)
   \<and> symCancelFunc run this [] w = Some (Throw mustHaveError, w)"
  by (simp add: symCancelFunc_def)

section \<open>The error of a node is set once\<close>

lemma keepsErrors_refl: "keepsErrors w w"
  by (simp add: keepsErrors_def)

lemma keepsErrors_trans: "keepsErrors w w1 \<Longrightarrow> keepsErrors w1 w2 \<Longrightarrow> keepsErrors w w2"
  by (auto simp: keepsErrors_def)

lemma keepsErrors_cells: "cells w' = cells w \<Longrightarrow> keepsErrors w w'"
  by (simp add: keepsErrors_def cellAt_def)

lemma steps_keepsErrors: "steps w w' \<Longrightarrow> keepsErrors w w'"
  by (simp add: keepsErrors_def steps_length steps_error)

lemma cells_settlePromise [simp]: "cells (settlePromise p s w) = cells w"
  by (simp add: settlePromise_def)

lemma cells_thenPromise [simp]: "cells (thenPromise p f g w) = cells w"
  by (simp add: thenPromise_def)

lemma cells_newPromise [simp]: "cells (snd (newPromise s w)) = cells w"
  by (simp add: newPromise_def)

lemma cells_callV [simp]: "cells (callV f v w) = cells w"
  by (cases f) (simp_all add: Let_def split: option.splits)

lemma cells_runJob [simp]: "cells (runJob w) = cells w"
  by (simp add: runJob_def split: list.splits)

lemma cellAt_cells: "cells w' = cells w \<Longrightarrow> cellAt w' a = cellAt w a"
  by (simp add: cellAt_def)

lemma cellAt_nextSym [simp]: "cellAt (w\<lparr>nextSym := n\<rparr>) a = cellAt w a"
  by (simp add: cellAt_def)

lemma cells_newPromise_eq: "newPromise s w = (p, w') \<Longrightarrow> cells w' = cells w"
  by (auto simp: newPromise_def)

lemma doneHandler_keepsErrors:
  assumes "stepping run" and "doneHandler run c f w = Some (u, w')"
  shows "keepsErrors w w'"
proof (cases "cancelCell c")
  case None
  with assms(2) show ?thesis by (simp add: doneHandler_cancelCell [of _ c] keepsErrors_refl)
next
  case (Some a)
  show ?thesis
  proof (cases "error (cellAt w a) = JNull")
    case True
    with assms(2) Some show ?thesis
      by (auto simp: doneHandler_cancelCell [of _ c] Let_def keepsErrors_def cellAt_setCell)
  next
    case False
    with assms(2) Some have "\<exists>r. run f w = Some (r, w')"
      by (auto simp: doneHandler_cancelCell [of _ c] andThen_Some)
    with assms(1) show ?thesis using steppingD steps_keepsErrors by blast
  qed
qed

lemma keepsErrors_allocCell: "keepsErrors w (snd (allocCell w))"
  by (auto simp: keepsErrors_def allocCell_def cellAt_def nth_append)

lemma initCancelContext_keepsErrors:
  assumes "stepping run" and "initCancelContext run this parentCtx deadline w = Some (r, w')"
  shows "keepsErrors w w'"
proof -
  from assms(2) consider
    (a) e where "doneHandler run parentCtx (ParentDone this parentCtx) w = Some (Throw e, w')"
    | (b) u w1 where "doneHandler run parentCtx (ParentDone this parentCtx) w = Some (Normal u, w1)"
        "(let w2 = setCell this (\<lambda>c. c\<lparr>unregParentFunc := Some u\<rparr>) w1 in
       case deadline of
         None \<Rightarrow> ret () w2
       | Some d \<Rightarrow>
           if error (cellAt w2 this) = JNull then
             let f = DeadlineFire this;
                 tr = d - clock w2
             in if tr \<le> 0 then run f w2
                else ret () (w2\<lparr>timers := timers w2 @ [(f, tr)]\<rparr>)
           else ret () w2) = Some (r, w')"
    unfolding initCancelContext_def andThen_Some by blast
  then show ?thesis
  proof cases
    case a
    then show ?thesis by (rule doneHandler_keepsErrors [OF assms(1)])
  next
    case b
    let ?w2 = "setCell this (\<lambda>c. c\<lparr>unregParentFunc := Some u\<rparr>) w1"
    have 1: "keepsErrors w w1" using b(1) by (rule doneHandler_keepsErrors [OF assms(1)])
    have 2: "keepsErrors w1 ?w2" by (auto simp: keepsErrors_def cellAt_setCell)
    have 3: "keepsErrors ?w2 w'"
      using b(2) steps_keepsErrors [OF steppingD [OF assms(1)]]
      by (auto simp: Let_def keepsErrors_refl keepsErrors_cells split: option.splits if_splits)
    from 1 2 3 show ?thesis using keepsErrors_trans by blast
  qed
qed

lemma withDeadline_keepsErrors:
  assumes "stepping run" and "withDeadline run c d w = Some (r, w')"
  shows "keepsErrors w w'"
proof -
  from assms(2) have "\<exists>r'. initCancelContext run (fst (allocCell w)) c d (snd (allocCell w)) = Some (r', w')"
    by (auto simp: withDeadline_def andThen_Some split: prod.splits)
  then show ?thesis
    using initCancelContext_keepsErrors [OF assms(1)] keepsErrors_allocCell keepsErrors_trans by blast
qed

lemma expiryPromise_keepsErrors:
  assumes "stepping run" and "expiryPromise run c w = Some (r, w')"
  shows "keepsErrors w w'"
proof -
  let ?p = "fst (newPromise Pending w)" and ?w1 = "snd (newPromise Pending w)"
  have 1: "keepsErrors w ?w1" by (simp add: keepsErrors_cells)
  from assms(2) obtain x w2 where d: "doneHandler run c (ExpiryReject ?p c) ?w1 = Some (x, w2)"
    and w': "w' = w2 \<or> (\<exists>e. w' = settlePromise ?p (Rejected e) w2)"
    by (auto simp: expiryPromise_def split: prod.splits option.splits completion.splits)
  have 2: "keepsErrors ?w1 w2" using d by (rule doneHandler_keepsErrors [OF assms(1)])
  have 3: "keepsErrors w2 w'" using w' by (auto simp: keepsErrors_refl keepsErrors_cells)
  from 1 2 3 show ?thesis using keepsErrors_trans by blast
qed

lemma acts_Cons_Some:
  "acts run (a # as) w = Some (r, w') \<longleftrightarrow>
     (\<exists>e. act run a w = Some (Throw e, w') \<and> r = Throw e)
     \<or> (\<exists>w1. act run a w = Some (Normal (), w1) \<and> acts run as w1 = Some (r, w'))"
  by (simp add: andThen_Some)

lemma act_Register_Some:
  "act run (Register c g) w = Some (r, w') \<longleftrightarrow>
     (\<exists>e. doneHandler run c g w = Some (Throw e, w') \<and> r = Throw e)
     \<or> (\<exists>u. doneHandler run c g w = Some (Normal u, w') \<and> r = Normal ())"
  by (auto simp: andThen_Some)

lemma callOp_Some:
  "callOp run (UserOp n as s) w = Some (r, w') \<longleftrightarrow>
     (\<exists>e. acts run as (w\<lparr>trace := trace w @ [OpStarted n]\<rparr>) = Some (Throw e, w') \<and> r = Throw e)
     \<or> (\<exists>w1. acts run as (w\<lparr>trace := trace w @ [OpStarted n]\<rparr>) = Some (Normal (), w1)
            \<and> r = Normal (length (promises w1))
            \<and> w' = w1\<lparr>promises := promises w1 @ [\<lparr>pstate = s, reactions = []\<rparr>]\<rparr>)"
  by (auto simp: andThen_Some newPromise_def)

lemma raceExecutor_Some:
  "raceExecutor run ctx f p r w = Some (x, w') \<longleftrightarrow>
     (\<exists>e. callOp run f w = Some (Throw e, w') \<and> x = Throw e)
     \<or> (\<exists>q w3. callOp run f w = Some (Normal q, w3)
          \<and> ((\<exists>e. expiryPromise run ctx (thenPromise q (Some (RaceFulfilled r)) (Some (RejectFn p)) w3)
                   = Some (Throw e, w') \<and> x = Throw e)
             \<or> (\<exists>y w5. expiryPromise run ctx (thenPromise q (Some (RaceFulfilled r)) (Some (RejectFn p)) w3)
                   = Some (Normal y, w5) \<and> x = Normal ()
                   \<and> w' = thenPromise y None (Some (RaceExpired r)) w5)))"
  by (auto simp: raceExecutor_def andThen_Some Let_def)

lemma raceContext_active_Some:
  assumes "errorOf w c = JNull" and "raceContext run c f cl w = Some (r, w')"
  shows "r = Normal (length (promises w))
     \<and> ((\<exists>u. raceExecutor run c f (length (promises w)) (length (races w))
            (w\<lparr>promises := promises w @ [\<lparr>pstate = Pending, reactions = []\<rparr>],
               races := races w @ [\<lparr>aborted = False, cleanupFunc = cl, outer = length (promises w)\<rparr>]\<rparr>)
            = Some (Normal u, w'))
        \<or> (\<exists>e w6. raceExecutor run c f (length (promises w)) (length (races w))
            (w\<lparr>promises := promises w @ [\<lparr>pstate = Pending, reactions = []\<rparr>],
               races := races w @ [\<lparr>aborted = False, cleanupFunc = cl, outer = length (promises w)\<rparr>]\<rparr>)
            = Some (Throw e, w6) \<and> w' = settlePromise (length (promises w)) (Rejected e) w6))"
proof -
  let ?p = "length (promises w)"
  let ?e = "raceExecutor run c f ?p (length (races w))
            (w\<lparr>promises := promises w @ [\<lparr>pstate = Pending, reactions = []\<rparr>],
               races := races w @ [\<lparr>aborted = False, cleanupFunc = cl, outer = ?p\<rparr>]\<rparr>)"
  from assms have c: "(case ?e of None \<Rightarrow> None
         | Some (Throw e, w6) \<Rightarrow> ret ?p (settlePromise ?p (Rejected e) w6)
         | Some (Normal u, w6) \<Rightarrow> ret ?p w6) = Some (r, w')"
    by (simp add: raceContext_def newPromise_def Let_def)
  show ?thesis
  proof (cases ?e)
    case None
    with c show ?thesis by simp
  next
    case (Some a)
    obtain x w6 where a: "a = (x, w6)" by (cases a)
    show ?thesis
    proof (cases x)
      case (Normal u)
      with c Some a show ?thesis by simp
    next
      case (Throw e)
      with c Some a show ?thesis by simp
    qed
  qed
qed

lemma acts_keepsErrors:
  assumes "stepping run"
  shows "acts run as w = Some (r, w') \<Longrightarrow> keepsErrors w w'"
proof (induction as arbitrary: w)
  case Nil
  then show ?case by (simp add: keepsErrors_refl)
next
  case (Cons a as)
  have one: "keepsErrors w w1" if "act run a w = Some (x, w1)" for x w1
  proof (cases a)
    case (Invoke g)
    with that show ?thesis using steppingD [OF assms] steps_keepsErrors by auto
  next
    case (Register c g)
    from that [unfolded Register act_Register_Some] show ?thesis
      using doneHandler_keepsErrors [OF assms] by blast
  qed
  from Cons.prems show ?case
    unfolding acts_Cons_Some using one Cons.IH keepsErrors_trans by blast
qed

lemma callOp_keepsErrors:
  assumes "stepping run" and "callOp run f w = Some (r, w')"
  shows "keepsErrors w w'"
proof (cases f)
  case (UserOp n as s)
  let ?w0 = "w\<lparr>trace := trace w @ [OpStarted n]\<rparr>"
  have 0: "keepsErrors w ?w0" by (rule keepsErrors_cells) simp
  from assms(2) UserOp obtain x w1 where a: "acts run as ?w0 = Some (x, w1)" and c: "cells w' = cells w1"
    unfolding UserOp callOp_Some by auto
  from acts_keepsErrors [OF assms(1) a] have "keepsErrors ?w0 w1" .
  moreover have "keepsErrors w1 w'" using c by (rule keepsErrors_cells)
  ultimately show ?thesis using 0 keepsErrors_trans by blast
qed

lemma raceExecutor_keepsErrors:
  assumes "stepping run" and "raceExecutor run c f p r w = Some (x, w')"
  shows "keepsErrors w w'"
proof -
  from assms(2) consider
    (a) e where "callOp run f w = Some (Throw e, w')"
    | (b) q w3 y w5 where "callOp run f w = Some (Normal q, w3)"
        "expiryPromise run c (thenPromise q (Some (RaceFulfilled r)) (Some (RejectFn p)) w3) = Some (y, w5)"
        "cells w' = cells w5"
    unfolding raceExecutor_Some by auto
  then show ?thesis
  proof cases
    case a
    then show ?thesis by (rule callOp_keepsErrors [OF assms(1)])
  next
    case b
    let ?w4 = "thenPromise q (Some (RaceFulfilled r)) (Some (RejectFn p)) w3"
    have 1: "keepsErrors w w3" using b(1) by (rule callOp_keepsErrors [OF assms(1)])
    have 2: "keepsErrors w3 ?w4" by (rule keepsErrors_cells) simp
    have 3: "keepsErrors ?w4 w5" using b(2) by (rule expiryPromise_keepsErrors [OF assms(1)])
    have 4: "keepsErrors w5 w'" using b(3) by (rule keepsErrors_cells)
    from 1 2 3 4 show ?thesis using keepsErrors_trans by blast
  qed
qed

lemma raceContext_keepsErrors:
  assumes "stepping run" and "raceContext run c f cl w = Some (r, w')"
  shows "keepsErrors w w'"
proof (cases "errorOf w c = JNull")
  case False
  with assms(2) show ?thesis
    by (auto simp: raceContext_def split: prod.splits dest!: cells_newPromise_eq intro: keepsErrors_cells)
next
  case True
  let ?w2 = "w\<lparr>promises := promises w @ [\<lparr>pstate = Pending, reactions = []\<rparr>],
               races := races w @ [\<lparr>aborted = False, cleanupFunc = cl, outer = length (promises w)\<rparr>]\<rparr>"
  from raceContext_active_Some [OF True assms(2)] obtain x w6
    where e: "raceExecutor run c f (length (promises w)) (length (races w)) ?w2 = Some (x, w6)"
      and w': "cells w' = cells w6"
    by auto
  have 1: "keepsErrors w ?w2" by (rule keepsErrors_cells) simp
  have 2: "keepsErrors ?w2 w6" using e by (rule raceExecutor_keepsErrors [OF assms(1)])
  have 3: "keepsErrors w6 w'" using w' by (rule keepsErrors_cells)
  from 1 2 3 show ?thesis using keepsErrors_trans by blast
qed

lemma later_keepsErrors: "later w w' \<Longrightarrow> keepsErrors w w'"
proof (induction rule: later.induct)
  case (now w)
  show ?case by (rule keepsErrors_refl)
next
  case (call w w1 f n r w2)
  from exec_steps [OF call.hyps(3)] call.IH show ?case
    using steps_keepsErrors keepsErrors_trans by blast
next
  case (register w w1 f n c u w2)
  from doneHandler_keepsErrors [OF exec_stepping register.hyps(3)] register.IH show ?case
    using keepsErrors_trans by blast
next
  case (derive w w1 n c d x w2)
  from withDeadline_keepsErrors [OF exec_stepping derive.hyps(2)] derive.IH show ?case
    using keepsErrors_trans by blast
next
  case (expiry w w1 n c p w2)
  from expiryPromise_keepsErrors [OF exec_stepping expiry.hyps(2)] expiry.IH show ?case
    using keepsErrors_trans by blast
next
  case (race w w1 n c op cl p w2)
  from raceContext_keepsErrors [OF exec_stepping race.hyps(2)] race.IH show ?case
    using keepsErrors_trans by blast
next
  case (job w w1)
  have "keepsErrors w1 (runJob w1)" by (rule keepsErrors_cells) simp
  with job.IH show ?case using keepsErrors_trans by blast
next
  case (settle w w1 p s)
  have "keepsErrors w1 (settlePromise p s w1)" by (rule keepsErrors_cells) simp
  with settle.IH show ?case using keepsErrors_trans by blast
next
  case (tick w w1 t ts)
  have "keepsErrors w1 (w1\<lparr>timers := ts, clock := t\<rparr>)" by (rule keepsErrors_cells) simp
  with tick.IH show ?case using keepsErrors_trans by blast
qed

lemma symCancelFunc_live_steps:
  assumes "stepping run" and "\<not> falsy (arg 0 args)" and "error (cellAt w this) = JNull"
    and "symCancelFunc run this args w = Some (r, w')"
  shows "steps (setCell this (\<lambda>c. c\<lparr>error := arg 0 args\<rparr>) w) w'"
proof -
  note fe = forEach_steps [OF assms(1)] and rn = steppingD [OF assms(1)]
  from assms(4) show ?thesis
  proof (cases rule: symCancelFunc_cases)
    case absent
    with assms(2) show ?thesis by simp
  next
    case already
    with assms(3) show ?thesis by simp
  next
    case (handlerThrow e)
    from fe [OF handlerThrow(3)] show ?thesis .
  next
    case (noParent w2)
    from fe [OF noParent(3)] show ?thesis
      unfolding noParent by (rule steps.update) (simp add: cellStep_def)
  next
    case (parentThrow w2 u e)
    from fe [OF parentThrow(3)] have "steps (setCell this (\<lambda>c. c\<lparr>error := arg 0 args\<rparr>) w)
        (setCell this (\<lambda>c. c\<lparr>doneHandlers := []\<rparr>) w2)"
      by (rule steps.update) (simp add: cellStep_def)
    with rn [OF parentThrow(5)] show ?thesis by (rule steps_trans)
  next
    case (completed w2 u w4)
    from fe [OF completed(3)] have "steps (setCell this (\<lambda>c. c\<lparr>error := arg 0 args\<rparr>) w)
        (setCell this (\<lambda>c. c\<lparr>doneHandlers := []\<rparr>) w2)"
      by (rule steps.update) (simp add: cellStep_def)
    with rn [OF completed(5)] have "steps (setCell this (\<lambda>c. c\<lparr>error := arg 0 args\<rparr>) w) w4"
      by (rule steps_trans)
    then show ?thesis unfolding completed by (rule steps.update) (simp add: cellStep_def)
  qed
qed

lemma symCancelFunc_sets_error:
  assumes "stepping run" and "\<not> falsy (arg 0 args)" and "error (cellAt w this) = JNull"
    and "this < length (cells w)" and "symCancelFunc run this args w = Some (r, w')"
  shows "error (cellAt w' this) = arg 0 args"
proof -
  let ?w1 = "setCell this (\<lambda>c. c\<lparr>error := arg 0 args\<rparr>) w"
  have "error (cellAt ?w1 this) = arg 0 args" using assms(4) by (simp add: cellAt_setCell)
  moreover have "arg 0 args \<noteq> JNull" using assms(2) by auto
  ultimately show ?thesis
    using steps_error [OF symCancelFunc_live_steps [OF assms(1,2,3,5)], of this] by simp
qed

lemma symCancelFunc_total: "\<exists>n r. symCancelFunc (exec n) this args w = Some r"
  using symCancelFunc_terminates [of "Suc (card (activeCells w))" w this args] exec_terminates
  by simp

text \<open>
  C5. The error field of a node starts absent. Called on an Active node with a cause,
  the Done transition ends, and when it ends the node's error is that cause. In every
  store reached later by any operations the error is still that cause, and a further
  call of the Done transition with any cause returns at once and leaves the store as it
  is.
\<close>

theorem error_set_once:
  assumes "this < length (cells w)" and "error (cellAt w this) = JNull" and "\<not> falsy e"
  shows "error (cellAt (snd (allocCell w0)) (fst (allocCell w0))) = JNull
     \<and> (\<exists>n r w'. symCancelFunc (exec n) this (e # rest) w = Some (r, w'))
     \<and> (\<forall>n r w'. symCancelFunc (exec n) this (e # rest) w = Some (r, w') \<longrightarrow>
          error (cellAt w' this) = e
          \<and> (\<forall>w''. later w' w'' \<longrightarrow>
                error (cellAt w'' this) = e
                \<and> (\<forall>run e' rest'. \<not> falsy e' \<longrightarrow>
                      symCancelFunc run this (e' # rest') w'' = Some (Normal (), w''))))"
proof (intro conjI allI impI)
  show "error (cellAt (snd (allocCell w0)) (fst (allocCell w0))) = JNull"
    by (simp add: allocCell_def cellAt_def freshCell_def)
next
  from symCancelFunc_total [of this "e # rest" w]
  show "\<exists>n r w'. symCancelFunc (exec n) this (e # rest) w = Some (r, w')" by auto
next
  fix n r w'
  assume s: "symCancelFunc (exec n) this (e # rest) w = Some (r, w')"
  from symCancelFunc_sets_error [OF exec_stepping _ assms(2,1) s] assms(3)
  show e: "error (cellAt w' this) = e" by simp
  fix w''
  assume l: "later w' w''"
  have "e \<noteq> JNull" using assms(3) by auto
  with later_keepsErrors [OF l] e
  show e'': "error (cellAt w'' this) = e" by (simp add: keepsErrors_def)
  fix run e' rest'
  assume "\<not> falsy e'"
  with e'' assms(3) show "symCancelFunc run this (e' # rest') w'' = Some (Normal (), w'')"
    by (auto simp: symCancelFunc_def ret_def)
qed

theorem error_set_once_witness:
  "0 < length (cells activeWorld) \<and> error (cellAt activeWorld 0) = JNull \<and> \<not> falsy (JError DeadlineError)
   \<and> (\<exists>n r w'. symCancelFunc (exec n) 0 [JError DeadlineError] activeWorld = Some (r, w')
         \<and> error (cellAt w' 0) = JError DeadlineError)"
proof -
  have h1: "0 < length (cells activeWorld)" by (simp add: activeWorld_def)
  have h2: "error (cellAt activeWorld 0) = JNull" by (simp add: activeWorld_def cellAt_def)
  have h3: "\<not> falsy (JError DeadlineError)" by simp
  from error_set_once [OF h1 h2 h3, of emptyWorld "[]"] h1 h2 h3 show ?thesis by blast
qed

section \<open>No call throws in a store the module built\<close>

lemma safeD:
  "safe run \<Longrightarrow> wellFormed w \<Longrightarrow> callable w f \<Longrightarrow> run f w = Some (r, w') \<Longrightarrow>
     r = Normal () \<and> wellFormed w'"
  unfolding safe_def by blast

lemma calm_callable: "calm f \<Longrightarrow> callable w f"
  by (cases f) simp_all

lemma calm_handlerOk: "calm f \<Longrightarrow> handlerOk a f"
  by (cases f) simp_all

lemma wellFormed_iff: "wellFormed w \<longleftrightarrow> (\<forall>a < length (cells w). cellOk a (cellAt w a))"
  by (auto simp: wellFormed_def list_all_iff cellAt_def)

lemma cellOk_freshCell: "cellOk a freshCell"
  by (simp add: cellOk_def freshCell_def)

lemma wellFormed_cellOk: "wellFormed w \<Longrightarrow> cellOk a (cellAt w a)"
  by (cases "a < length (cells w)") (auto simp: wellFormed_iff cellAt_def cellOk_freshCell)

lemma wellFormed_setCell:
  "wellFormed w \<Longrightarrow> cellOk a (f (cellAt w a)) \<Longrightarrow> wellFormed (setCell a f w)"
  by (auto simp: wellFormed_iff cellAt_setCell)

lemma wellFormed_cells: "wellFormed w \<Longrightarrow> cells w' = cells w \<Longrightarrow> wellFormed w'"
  by (simp add: wellFormed_def)

lemma callable_steps: "steps w w' \<Longrightarrow> callable w f \<Longrightarrow> callable w' f"
proof (cases f)
  case (ParentDone this parentCtx)
  assume s: "steps w w'" and c: "callable w f"
  show ?thesis
  proof (cases "cancelCell parentCtx")
    case None
    with c ParentDone show ?thesis by (simp add: errorOf_cancelCell)
  next
    case (Some a)
    with c ParentDone have "\<not> falsy (error (cellAt w a))" by (simp add: errorOf_cancelCell)
    moreover from this have "error (cellAt w a) \<noteq> JNull" by auto
    ultimately show ?thesis using steps_error [OF s, of a] ParentDone Some
      by (simp add: errorOf_cancelCell)
  qed
qed simp_all

lemma forEach_safe:
  assumes "safe run" and "stepping run"
  shows "wellFormed w \<Longrightarrow> \<forall>f \<in> set fs. callable w f \<Longrightarrow> forEach run fs w = Some (r, w') \<Longrightarrow>
     r = Normal () \<and> wellFormed w'"
proof (induction fs arbitrary: w)
  case Nil
  then show ?case by simp
next
  case (Cons h hs)
  from Cons.prems(2) have ch: "callable w h" by simp
  from Cons.prems(3) consider
    (a) e where "run h w = Some (Throw e, w')" "r = Throw e"
    | (b) w1 where "run h w = Some (Normal (), w1)" "forEach run hs w1 = Some (r, w')"
    unfolding forEach_Cons_Some by blast
  then show ?case
  proof cases
    case a
    from safeD [OF assms(1) Cons.prems(1) ch a(1)] show ?thesis by simp
  next
    case b
    from safeD [OF assms(1) Cons.prems(1) ch b(1)] have wf1: "wellFormed w1" by simp
    from steppingD [OF assms(2) b(1)] Cons.prems(2) have "\<forall>f \<in> set hs. callable w1 f"
      using callable_steps by auto
    from Cons.IH [OF wf1 this b(2)] show ?thesis .
  qed
qed

lemma handlerOk_callable:
  assumes "handlerOk a h" and "\<not> falsy (error (cellAt w a))"
  shows "callable w h"
  using assms by (cases h) (simp_all add: errorOf_cancelCell)

lemma symCancelFunc_safe:
  assumes sf: "safe run" and st: "stepping run" and wf: "wellFormed w"
    and nf: "\<not> falsy (arg 0 args)" and s: "symCancelFunc run this args w = Some (r, w')"
  shows "r = Normal () \<and> wellFormed w'"
proof -
  let ?e = "arg 0 args"
  let ?w1 = "setCell this (\<lambda>c. c\<lparr>error := ?e\<rparr>) w"
  let ?hs = "map snd (doneHandlers (cellAt ?w1 this))"
  have wf1: "wellFormed ?w1"
    using wellFormed_cellOk [OF wf, of this] nf
    by (intro wellFormed_setCell [OF wf]) (simp add: cellOk_def)
  have hs: "\<forall>f \<in> set ?hs. callable ?w1 f"
  proof (cases "this < length (cells w)")
    case True
    then have e1: "error (cellAt ?w1 this) = ?e" by (simp add: cellAt_setCell)
    from wellFormed_cellOk [OF wf1, of this] have "\<forall>f \<in> set ?hs. handlerOk this f"
      by (simp add: cellOk_def list_all_iff)
    with e1 nf show ?thesis using handlerOk_callable [of this _ ?w1] by auto
  next
    case False
    then show ?thesis by (simp add: cellAt_def freshCell_def)
  qed
  have clear: "wellFormed (setCell this (\<lambda>c. c\<lparr>doneHandlers := []\<rparr>) w2)" if "wellFormed w2" for w2
    using wellFormed_cellOk [OF that, of this]
    by (intro wellFormed_setCell [OF that]) (simp add: cellOk_def)
  have unreg: "callable (setCell this (\<lambda>c. c\<lparr>doneHandlers := []\<rparr>) w2) u"
    if "wellFormed w2" "unregParentFunc (cellAt (setCell this (\<lambda>c. c\<lparr>doneHandlers := []\<rparr>) w2) this) = Some u"
    for w2 u
    using wellFormed_cellOk [OF clear [OF that(1)], of this] that(2)
    by (simp add: cellOk_def calm_callable)
  from s show ?thesis
  proof (cases rule: symCancelFunc_cases)
    case absent
    with nf show ?thesis by simp
  next
    case already
    with wf show ?thesis by simp
  next
    case (handlerThrow e)
    from forEach_safe [OF sf st wf1 hs handlerThrow(3)] show ?thesis by simp
  next
    case (noParent w2)
    from forEach_safe [OF sf st wf1 hs noParent(3)] have "wellFormed w2" by simp
    from clear [OF this] noParent show ?thesis by simp
  next
    case (parentThrow w2 u e)
    from forEach_safe [OF sf st wf1 hs parentThrow(3)] have wf2: "wellFormed w2" by simp
    from safeD [OF sf clear [OF wf2] unreg [OF wf2 parentThrow(4)] parentThrow(5)]
    show ?thesis by simp
  next
    case (completed w2 u w4)
    from forEach_safe [OF sf st wf1 hs completed(3)] have wf2: "wellFormed w2" by simp
    from safeD [OF sf clear [OF wf2] unreg [OF wf2 completed(4)] completed(5)]
    have wf4: "wellFormed w4" by simp
    have "wellFormed (setCell this (\<lambda>c. c\<lparr>unregParentFunc := None\<rparr>) w4)"
      using wellFormed_cellOk [OF wf4, of this]
      by (intro wellFormed_setCell [OF wf4]) (simp add: cellOk_def)
    with completed show ?thesis by simp
  qed
qed

lemma call_safe:
  assumes sf: "safe run" and st: "stepping run" and wf: "wellFormed w"
    and c: "callable w f" and s: "call run f w = Some (r, w')"
  shows "r = Normal () \<and> wellFormed w'"
proof (cases f)
  case Noop
  with s wf show ?thesis by simp
next
  case (ParentDone this parentCtx)
  let ?w1 = "setCell this (\<lambda>c. c\<lparr>unregParentFunc := None\<rparr>) w"
  have wf1: "wellFormed ?w1"
    using wellFormed_cellOk [OF wf, of this]
    by (intro wellFormed_setCell [OF wf]) (simp add: cellOk_def)
  have "errorOf ?w1 parentCtx = errorOf w parentCtx"
    by (simp add: errorOf_cancelCell cellAt_setCell split: option.splits)
  with c ParentDone have nf: "\<not> falsy (arg 0 [errorOf ?w1 parentCtx])" by simp
  from s ParentDone have "symCancelFunc run this [errorOf ?w1 parentCtx] ?w1 = Some (r, w')"
    by (simp add: Let_def)
  from symCancelFunc_safe [OF sf st wf1 nf this] show ?thesis .
next
  case (DeadlineFire this)
  with s have "symCancelFunc run this [JError DeadlineError] w = Some (r, w')" by simp
  from symCancelFunc_safe [OF sf st wf _ this] show ?thesis by simp
next
  case (Unregister this sy)
  have "wellFormed (setCell this (\<lambda>c. c\<lparr>doneHandlers := filter (\<lambda>x. fst x \<noteq> sy) (doneHandlers c)\<rparr>) w)"
    using wellFormed_cellOk [OF wf, of this]
    by (intro wellFormed_setCell [OF wf]) (auto simp: cellOk_def list_all_iff)
  with s Unregister show ?thesis by simp
next
  case (CancelTrigger this)
  with s have "symCancelFunc run this [JBool True, JError CancelledError] w = Some (r, w')" by simp
  from symCancelFunc_safe [OF sf st wf _ this] show ?thesis by simp
next
  case (ExpiryReject p cx)
  with s wellFormed_cells [OF wf] show ?thesis by auto
next
  case (UserLog m)
  with s wellFormed_cells [OF wf] show ?thesis by auto
next
  case (UserThrow v)
  with c show ?thesis by simp
next
  case (UserSettle p st)
  with s wellFormed_cells [OF wf] show ?thesis by auto
next
  case (UserSeq fs)
  with c have "\<forall>f \<in> set fs. callable w f"
    by (simp add: list_all_iff calm_callable)
  from forEach_safe [OF sf st wf this] s UserSeq show ?thesis by simp
qed

lemma exec_safe: "safe (exec n)"
proof (induction n)
  case 0
  show ?case by (simp add: safe_def)
next
  case (Suc n)
  show ?case
    unfolding safe_def
  proof (intro allI impI)
    fix f w r w'
    assume wf: "wellFormed w" and c: "callable w f" and e: "exec (Suc n) f w = Some (r, w')"
    from e have "call (exec n) f w = Some (r, w')" by simp
    from call_safe [OF Suc exec_stepping wf c this] show "r = Normal () \<and> wellFormed w'" .
  qed
qed

lemma wellFormed_error_truthy: "wellFormed w \<Longrightarrow> errorOf w c \<noteq> JNull \<Longrightarrow> \<not> falsy (errorOf w c)"
proof (cases "cancelCell c")
  case None
  assume "errorOf w c \<noteq> JNull"
  with None show ?thesis by (simp add: errorOf_cancelCell)
next
  case (Some a)
  assume "wellFormed w" and "errorOf w c \<noteq> JNull"
  with Some wellFormed_cellOk [of w a] show ?thesis by (simp add: errorOf_cancelCell cellOk_def)
qed

lemma doneHandler_safe:
  assumes sf: "safe run" and wf: "wellFormed w"
    and ok: "\<And>a. cancelCell c = Some a \<Longrightarrow> handlerOk a f"
    and d: "doneHandler run c f w = Some (r, w')"
  shows "(\<exists>u. r = Normal u \<and> (u = Noop \<or> (\<exists>a s. u = Unregister a s))) \<and> wellFormed w'"
proof (cases "cancelCell c")
  case None
  with d wf show ?thesis by (simp add: doneHandler_cancelCell [of _ c])
next
  case (Some a)
  show ?thesis
  proof (cases "error (cellAt w a) = JNull")
    case True
    let ?w1 = "w\<lparr>nextSym := Suc (nextSym w)\<rparr>"
    have wf1: "wellFormed ?w1" using wellFormed_cells [OF wf] by simp
    have "wellFormed (setCell a (\<lambda>c. c\<lparr>doneHandlers := doneHandlers c @ [(nextSym w, f)]\<rparr>) ?w1)"
      using wellFormed_cellOk [OF wf1, of a] ok [OF Some]
      by (intro wellFormed_setCell [OF wf1]) (simp add: cellOk_def)
    with d Some True show ?thesis
      by (auto simp: doneHandler_cancelCell [of _ c] Let_def)
  next
    case False
    with wellFormed_cellOk [OF wf, of a] have "\<not> falsy (error (cellAt w a))"
      by (simp add: cellOk_def)
    from handlerOk_callable [OF ok [OF Some] this] have c: "callable w f" .
    from d Some False obtain r' where r': "run f w = Some (r', w')"
      and r: "r = (case r' of Normal _ \<Rightarrow> Normal Noop | Throw e \<Rightarrow> Throw e)"
      by (auto simp: doneHandler_cancelCell [of _ c] andThen_Some)
    from safeD [OF sf wf c r'] r show ?thesis by simp
  qed
qed

lemma wellFormed_allocCell: "wellFormed w \<Longrightarrow> wellFormed (snd (allocCell w))"
  by (auto simp: wellFormed_iff allocCell_def cellAt_def nth_append cellOk_freshCell)

lemma initCancelContext_safe:
  assumes sf: "safe run" and wf: "wellFormed w"
    and i: "initCancelContext run this parentCtx deadline w = Some (r, w')"
  shows "r = Normal () \<and> wellFormed w'"
proof -
  from i consider
    (a) e where "doneHandler run parentCtx (ParentDone this parentCtx) w = Some (Throw e, w')"
    | (b) u w1 where "doneHandler run parentCtx (ParentDone this parentCtx) w = Some (Normal u, w1)"
        "(let w2 = setCell this (\<lambda>c. c\<lparr>unregParentFunc := Some u\<rparr>) w1 in
       case deadline of
         None \<Rightarrow> ret () w2
       | Some d \<Rightarrow>
           if error (cellAt w2 this) = JNull then
             let f = DeadlineFire this;
                 tr = d - clock w2
             in if tr \<le> 0 then run f w2
                else ret () (w2\<lparr>timers := timers w2 @ [(f, tr)]\<rparr>)
           else ret () w2) = Some (r, w')"
    unfolding initCancelContext_def andThen_Some by blast
  then show ?thesis
  proof cases
    case a
    from doneHandler_safe [OF sf wf _ a] show ?thesis by simp
  next
    case b
    let ?w2 = "setCell this (\<lambda>c. c\<lparr>unregParentFunc := Some u\<rparr>) w1"
    from doneHandler_safe [OF sf wf _ b(1)]
    have wf1: "wellFormed w1" and u: "calm u" by auto
    have wf2: "wellFormed ?w2"
      using wellFormed_cellOk [OF wf1, of this] u
      by (intro wellFormed_setCell [OF wf1]) (simp add: cellOk_def)
    have run: "r = Normal () \<and> wellFormed w'" if "run (DeadlineFire this) ?w2 = Some (r, w')"
      using safeD [OF sf wf2 _ that] by simp
    from b(2) wf2 run wellFormed_cells [OF wf2] show ?thesis
      by (auto simp: Let_def split: option.splits if_splits)
  qed
qed

lemma withDeadline_safe:
  assumes "safe run" and "wellFormed w" and "withDeadline run c d w = Some (r, w')"
  shows "(\<exists>x. r = Normal x) \<and> wellFormed w'"
proof -
  from assms(3) obtain r' where i: "initCancelContext run (fst (allocCell w)) c d (snd (allocCell w)) = Some (r', w')"
    and r: "r' = Normal () \<longrightarrow> (\<exists>x. r = Normal x)"
    by (auto simp: withDeadline_def andThen_Some split: prod.splits)
  from initCancelContext_safe [OF assms(1) wellFormed_allocCell [OF assms(2)] i] r
  show ?thesis by simp
qed

lemma expiryPromise_safe:
  assumes "safe run" and "wellFormed w" and "expiryPromise run c w = Some (r, w')"
  shows "(\<exists>x. r = Normal x) \<and> wellFormed w'"
proof -
  let ?p = "fst (newPromise Pending w)" and ?w1 = "snd (newPromise Pending w)"
  have wf1: "wellFormed ?w1" using wellFormed_cells [OF assms(2)] by simp
  from assms(3) obtain x w2 where d: "doneHandler run c (ExpiryReject ?p c) ?w1 = Some (x, w2)"
    and w': "w' = w2 \<or> (\<exists>e. w' = settlePromise ?p (Rejected e) w2)" and r: "\<exists>y. r = Normal y"
    by (auto simp: expiryPromise_def split: prod.splits option.splits completion.splits)
  from doneHandler_safe [OF assms(1) wf1 _ d] have "wellFormed w2" by simp
  with w' r wellFormed_cells [OF this] show ?thesis by auto
qed

lemma acts_safe:
  assumes sf: "safe run"
  shows "list_all calmAction as \<Longrightarrow> wellFormed w \<Longrightarrow> acts run as w = Some (r, w') \<Longrightarrow>
    r = Normal () \<and> wellFormed w'"
proof (induction as arbitrary: w)
  case Nil
  then show ?case by simp
next
  case (Cons a as)
  from Cons.prems(1) have ca: "calmAction a" and cas: "list_all calmAction as" by simp_all
  have one: "x = Normal () \<and> wellFormed w1" if t: "act run a w = Some (x, w1)" for x w1
  proof (cases a)
    case (Invoke g)
    with t have r: "run g w = Some (x, w1)" by simp
    from ca Invoke have "callable w g" by (simp add: calm_callable)
    from safeD [OF sf Cons.prems(2) this r] show ?thesis .
  next
    case (Register c g)
    with ca have ok: "handlerOk b g" for b by (simp add: calm_handlerOk)
    from t [unfolded Register act_Register_Some] consider
      (a) e where "doneHandler run c g w = Some (Throw e, w1)"
      | (b) u where "doneHandler run c g w = Some (Normal u, w1)" "x = Normal ()"
      by blast
    then show ?thesis
    proof cases
      case a
      from doneHandler_safe [OF sf Cons.prems(2) ok a] show ?thesis by simp
    next
      case b
      from doneHandler_safe [OF sf Cons.prems(2) ok b(1)] b(2) show ?thesis by simp
    qed
  qed
  from Cons.prems(3) [unfolded acts_Cons_Some] consider
    (a) e where "act run a w = Some (Throw e, w')"
    | (b) w1 where "act run a w = Some (Normal (), w1)" "acts run as w1 = Some (r, w')"
    by blast
  then show ?case
  proof cases
    case a
    from one [OF a] show ?thesis by simp
  next
    case b
    from one [OF b(1)] have "wellFormed w1" by simp
    from Cons.IH [OF cas this b(2)] show ?thesis .
  qed
qed

lemma callOp_safe:
  assumes "safe run" and "calmOp f" and "wellFormed w" and "callOp run f w = Some (r, w')"
  shows "(\<exists>q. r = Normal q) \<and> wellFormed w'"
proof (cases f)
  case (UserOp n as s)
  let ?w0 = "w\<lparr>trace := trace w @ [OpStarted n]\<rparr>"
  have wf0: "wellFormed ?w0" using assms(3) by (rule wellFormed_cells) simp
  from assms(2) UserOp have c: "list_all calmAction as" by simp
  from assms(4) [unfolded UserOp callOp_Some] consider
    (a) e where "acts run as ?w0 = Some (Throw e, w')"
    | (b) w1 where "acts run as ?w0 = Some (Normal (), w1)" "r = Normal (length (promises w1))"
        "w' = w1\<lparr>promises := promises w1 @ [\<lparr>pstate = s, reactions = []\<rparr>]\<rparr>"
    by blast
  then show ?thesis
  proof cases
    case a
    from acts_safe [OF assms(1) c wf0 a] show ?thesis by simp
  next
    case b
    from acts_safe [OF assms(1) c wf0 b(1)] have "wellFormed w1" by simp
    then have "wellFormed w'" unfolding b(3) by (rule wellFormed_cells) simp
    with b(2) show ?thesis by simp
  qed
qed

lemma raceExecutor_safe:
  assumes "safe run" and "calmOp f" and "wellFormed w" and "raceExecutor run c f p r w = Some (x, w')"
  shows "x = Normal () \<and> wellFormed w'"
proof -
  from assms(4) callOp_safe [OF assms(1,2,3)] obtain q w3 y w5 where
    a: "callOp run f w = Some (Normal q, w3)"
      "expiryPromise run c (thenPromise q (Some (RaceFulfilled r)) (Some (RejectFn p)) w3) = Some (y, w5)"
      "(\<exists>e. y = Throw e \<and> x = Throw e \<and> w' = w5)
        \<or> (\<exists>z. y = Normal z \<and> x = Normal () \<and> w' = thenPromise z None (Some (RaceExpired r)) w5)"
    unfolding raceExecutor_Some by blast
  let ?w4 = "thenPromise q (Some (RaceFulfilled r)) (Some (RejectFn p)) w3"
  from callOp_safe [OF assms(1,2,3) a(1)] have "wellFormed w3" by simp
  then have wf4: "wellFormed ?w4" by (rule wellFormed_cells) simp
  from expiryPromise_safe [OF assms(1) wf4 a(2)] have y: "\<exists>z. y = Normal z" and wf5: "wellFormed w5"
    by auto
  from a(3) y wellFormed_cells [OF wf5] show ?thesis by auto
qed

lemma raceContext_safe:
  assumes "safe run" and "calmOp f" and "wellFormed w" and "raceContext run c f cl w = Some (r, w')"
  shows "(\<exists>x. r = Normal x) \<and> wellFormed w'"
proof (cases "errorOf w c = JNull")
  case False
  with assms(4) wellFormed_cells [OF assms(3)] show ?thesis
    by (auto simp: raceContext_def split: prod.splits dest!: cells_newPromise_eq)
next
  case True
  let ?w2 = "w\<lparr>promises := promises w @ [\<lparr>pstate = Pending, reactions = []\<rparr>],
               races := races w @ [\<lparr>aborted = False, cleanupFunc = cl, outer = length (promises w)\<rparr>]\<rparr>"
  from raceContext_active_Some [OF True assms(4)] obtain x w6
    where e: "raceExecutor run c f (length (promises w)) (length (races w)) ?w2 = Some (x, w6)"
      and r: "r = Normal (length (promises w))" and w': "cells w' = cells w6"
    by auto
  have wf2: "wellFormed ?w2" using assms(3) by (rule wellFormed_cells) simp
  from raceExecutor_safe [OF assms(1,2) wf2 e] have "wellFormed w6" by simp
  from wellFormed_cells [OF this w'] r show ?thesis by simp
qed

lemma calmly_wellFormed: "calmly w w' \<Longrightarrow> wellFormed w \<Longrightarrow> wellFormed w'"
proof (induction rule: calmly.induct)
  case (now w)
  then show ?case .
next
  case (call w w1 f n r w2)
  from safeD [OF exec_safe call.IH [OF call.prems] calm_callable [OF call.hyps(2)] call.hyps(3)]
  show ?case by simp
next
  case (register w w1 f n c u w2)
  from doneHandler_safe [OF exec_safe register.IH [OF register.prems] calm_handlerOk [OF register.hyps(2)] register.hyps(3)]
  show ?case by simp
next
  case (derive w w1 n c d x w2)
  from withDeadline_safe [OF exec_safe derive.IH [OF derive.prems] derive.hyps(2)]
  show ?case by simp
next
  case (expiry w w1 n c p w2)
  from expiryPromise_safe [OF exec_safe expiry.IH [OF expiry.prems] expiry.hyps(2)]
  show ?case by simp
next
  case (race w w1 n c op cl p w2)
  from raceContext_safe [OF exec_safe race.hyps(2) race.IH [OF race.prems] race.hyps(3)]
  show ?case by simp
next
  case (job w w1)
  from wellFormed_cells [OF job.IH [OF job.prems]] show ?case by simp
next
  case (settle w w1 p s)
  from wellFormed_cells [OF settle.IH [OF settle.prems]] show ?case by simp
next
  case (tick w w1 t ts)
  from wellFormed_cells [OF tick.IH [OF tick.prems]] show ?case by simp
qed

section \<open>Done nodes keep no handlers\<close>

lemma clearingD: "clearing run \<Longrightarrow> run f w = Some (Normal (), w') \<Longrightarrow> noNewViolation w w'"
  unfolding clearing_def by blast

lemma noNewViolation_refl: "noNewViolation w w"
  by (simp add: noNewViolation_def)

lemma noNewViolation_trans: "noNewViolation w w1 \<Longrightarrow> noNewViolation w1 w2 \<Longrightarrow> noNewViolation w w2"
  by (simp add: noNewViolation_def)

lemma noNewViolation_cells: "cells w' = cells w \<Longrightarrow> noNewViolation w w'"
  by (simp add: noNewViolation_def violated_def cellAt_def)

lemma cellAt_dangling: "\<not> a < length (cells w) \<Longrightarrow> cellAt w a = freshCell"
  by (simp add: cellAt_def)

lemma handlersCleared_iff: "handlersCleared w \<longleftrightarrow> (\<forall>a. \<not> violated w a)"
proof
  assume h: "handlersCleared w"
  show "\<forall>a. \<not> violated w a"
  proof
    fix a
    show "\<not> violated w a"
    proof (cases "a < length (cells w)")
      case True
      then have "cells w ! a \<in> set (cells w)" by simp
      with h True show ?thesis
        by (auto simp: handlersCleared_def violated_def list_all_iff cellAt_def)
    next
      case False
      then show ?thesis by (simp add: violated_def cellAt_dangling freshCell_def)
    qed
  qed
next
  assume v: "\<forall>a. \<not> violated w a"
  show "handlersCleared w"
    unfolding handlersCleared_def list_all_iff
  proof
    fix c assume "c \<in> set (cells w)"
    then obtain a where "a < length (cells w)" "c = cells w ! a" by (auto simp: in_set_conv_nth)
    with v [rule_format, of a] show "error c = JNull \<or> doneHandlers c = []"
      by (auto simp: violated_def cellAt_def)
  qed
qed

lemma handlersCleared_noNewViolation: "handlersCleared w \<Longrightarrow> noNewViolation w w' \<Longrightarrow> handlersCleared w'"
  by (auto simp: handlersCleared_iff noNewViolation_def)

lemma forEach_clearing:
  assumes "clearing run"
  shows "forEach run fs w = Some (Normal (), w') \<Longrightarrow> noNewViolation w w'"
proof (induction fs arbitrary: w)
  case Nil
  then show ?case by (simp add: noNewViolation_refl)
next
  case (Cons h hs)
  from Cons.prems obtain w1 where "run h w = Some (Normal (), w1)" "forEach run hs w1 = Some (Normal (), w')"
    unfolding forEach_Cons_Some by blast
  with clearingD [OF assms] Cons.IH show ?case using noNewViolation_trans by blast
qed

lemma violated_setCell_other:
  "doneHandlers (f (cellAt w a)) = doneHandlers (cellAt w a) \<Longrightarrow> error (f (cellAt w a)) = error (cellAt w a) \<Longrightarrow>
   violated (setCell a f w) b = violated w b"
  by (simp add: violated_def cellAt_setCell)

lemma symCancelFunc_clearing:
  assumes cl: "clearing run" and s: "symCancelFunc run this args w = Some (Normal (), w')"
  shows "noNewViolation w w'"
proof -
  let ?w1 = "setCell this (\<lambda>c. c\<lparr>error := arg 0 args\<rparr>) w"
  have first: "violated w a" if "violated ?w1 a" "a \<noteq> this" for a
    using that by (simp add: violated_def cellAt_setCell)
  have cleared: "\<not> violated (setCell this (\<lambda>c. c\<lparr>doneHandlers := []\<rparr>) w2) this" for w2
    by (cases "this < length (cells w2)")
      (simp_all add: violated_def cellAt_setCell cellAt_dangling freshCell_def)
  have other: "violated (setCell this (\<lambda>c. c\<lparr>doneHandlers := []\<rparr>) w2) a = violated w2 a"
    if "a \<noteq> this" for a w2
    using that by (simp add: violated_def cellAt_setCell)
  from s show ?thesis
  proof (cases rule: symCancelFunc_cases)
    case absent
    then show ?thesis by simp
  next
    case already
    then show ?thesis by (simp add: noNewViolation_refl)
  next
    case (handlerThrow e)
    then show ?thesis by simp
  next
    case (noParent w2)
    from forEach_clearing [OF cl noParent(3)] have v: "noNewViolation ?w1 w2" .
    show ?thesis
      unfolding noNewViolation_def
    proof (intro allI impI)
      fix a assume a: "violated w' a"
      with cleared [of w2] noParent(6) have ne: "a \<noteq> this" by auto
      with a other [OF ne, of w2] noParent(6) have "violated w2 a" by simp
      with v have "violated ?w1 a" by (simp add: noNewViolation_def)
      then show "violated w a" using ne by (rule first)
    qed
  next
    case (parentThrow w2 u e)
    then show ?thesis by simp
  next
    case (completed w2 u w4)
    let ?w3 = "setCell this (\<lambda>c. c\<lparr>doneHandlers := []\<rparr>) w2"
    from forEach_clearing [OF cl completed(3)] have v: "noNewViolation ?w1 w2" .
    from clearingD [OF cl completed(5)] have v4: "noNewViolation ?w3 w4" .
    show ?thesis
      unfolding noNewViolation_def
    proof (intro allI impI)
      fix a assume "violated w' a"
      with completed(7) have "violated w4 a" by (simp add: violated_setCell_other)
      with v4 have a3: "violated ?w3 a" by (simp add: noNewViolation_def)
      with cleared [of w2] have ne: "a \<noteq> this" by auto
      with a3 other [OF ne, of w2] have "violated w2 a" by simp
      with v have "violated ?w1 a" by (simp add: noNewViolation_def)
      then show "violated w a" using ne by (rule first)
    qed
  qed
qed

lemma call_clearing:
  assumes cl: "clearing run" and s: "call run f w = Some (Normal (), w')"
  shows "noNewViolation w w'"
proof (cases f)
  case (ParentDone this parentCtx)
  let ?w1 = "setCell this (\<lambda>c. c\<lparr>unregParentFunc := None\<rparr>) w"
  have "noNewViolation w ?w1" by (simp add: noNewViolation_def violated_setCell_other)
  moreover from s ParentDone have "noNewViolation ?w1 w'"
    by (auto simp: Let_def intro: symCancelFunc_clearing [OF cl])
  ultimately show ?thesis by (rule noNewViolation_trans)
next
  case (Unregister this sy)
  with s show ?thesis
    by (auto simp: noNewViolation_def violated_def cellAt_setCell split: if_splits)
next
  case (ExpiryReject p c)
  with s show ?thesis by (auto intro: noNewViolation_cells)
next
  case (UserLog m)
  with s show ?thesis by (auto intro: noNewViolation_cells)
next
  case (UserSettle p st)
  with s show ?thesis by (auto intro: noNewViolation_cells noNewViolation_refl)
qed (use s in \<open>auto intro: symCancelFunc_clearing [OF cl] forEach_clearing [OF cl] noNewViolation_refl\<close>)

lemma exec_clearing: "clearing (exec n)"
proof (induction n)
  case 0
  show ?case by (simp add: clearing_def)
next
  case (Suc n)
  show ?case
    unfolding clearing_def
  proof (intro allI impI)
    fix f w w'
    assume "exec (Suc n) f w = Some (Normal (), w')"
    then have "call (exec n) f w = Some (Normal (), w')" by simp
    from call_clearing [OF Suc this] show "noNewViolation w w'" .
  qed
qed

lemma doneHandler_clearing:
  assumes "clearing run" and "doneHandler run c f w = Some (Normal u, w')"
  shows "noNewViolation w w'"
proof (cases "cancelCell c")
  case None
  with assms(2) show ?thesis by (simp add: doneHandler_cancelCell [of _ c] noNewViolation_refl)
next
  case (Some a)
  show ?thesis
  proof (cases "error (cellAt w a) = JNull")
    case True
    with assms(2) Some show ?thesis
      by (auto simp: doneHandler_cancelCell [of _ c] Let_def noNewViolation_def violated_def cellAt_setCell
          split: if_splits)
  next
    case False
    with assms(2) Some have "run f w = Some (Normal (), w')"
      by (auto simp: doneHandler_cancelCell [of _ c] andThen_Some)
    with assms(1) show ?thesis by (rule clearingD)
  qed
qed

lemma noNewViolation_allocCell: "noNewViolation w (snd (allocCell w))"
  by (auto simp: noNewViolation_def violated_def allocCell_def cellAt_def nth_append freshCell_def
      split: if_splits)

lemma initCancelContext_clearing:
  assumes "clearing run" and "initCancelContext run this parentCtx deadline w = Some (Normal (), w')"
  shows "noNewViolation w w'"
proof -
  from assms(2) obtain u w1 where d: "doneHandler run parentCtx (ParentDone this parentCtx) w = Some (Normal u, w1)"
    and rest: "(let w2 = setCell this (\<lambda>c. c\<lparr>unregParentFunc := Some u\<rparr>) w1 in
       case deadline of
         None \<Rightarrow> ret () w2
       | Some d \<Rightarrow>
           if error (cellAt w2 this) = JNull then
             let f = DeadlineFire this;
                 tr = d - clock w2
             in if tr \<le> 0 then run f w2
                else ret () (w2\<lparr>timers := timers w2 @ [(f, tr)]\<rparr>)
           else ret () w2) = Some (Normal (), w')"
    unfolding initCancelContext_def andThen_Some by blast
  let ?w2 = "setCell this (\<lambda>c. c\<lparr>unregParentFunc := Some u\<rparr>) w1"
  have 1: "noNewViolation w w1" using d by (rule doneHandler_clearing [OF assms(1)])
  have 2: "noNewViolation w1 ?w2" by (simp add: noNewViolation_def violated_setCell_other)
  have 3: "noNewViolation ?w2 w'"
    using rest clearingD [OF assms(1)]
    by (auto simp: Let_def noNewViolation_refl noNewViolation_cells split: option.splits if_splits)
  from 1 2 3 show ?thesis using noNewViolation_trans by blast
qed

lemma withDeadline_clearing:
  assumes "clearing run" and "withDeadline run c d w = Some (Normal x, w')"
  shows "noNewViolation w w'"
proof -
  from assms(2) have "initCancelContext run (fst (allocCell w)) c d (snd (allocCell w)) = Some (Normal (), w')"
    by (auto simp: withDeadline_def andThen_Some split: prod.splits)
  from initCancelContext_clearing [OF assms(1) this] noNewViolation_allocCell
  show ?thesis using noNewViolation_trans by blast
qed

lemma expiryPromise_clearing:
  assumes "safe run" and "clearing run" and "wellFormed w" and "expiryPromise run c w = Some (r, w')"
  shows "noNewViolation w w'"
proof -
  let ?p = "fst (newPromise Pending w)" and ?w1 = "snd (newPromise Pending w)"
  have wf1: "wellFormed ?w1" using wellFormed_cells [OF assms(3)] by simp
  from assms(4) obtain x w2 where d: "doneHandler run c (ExpiryReject ?p c) ?w1 = Some (x, w2)"
    and w': "w' = w2 \<or> (\<exists>e. w' = settlePromise ?p (Rejected e) w2)"
    by (auto simp: expiryPromise_def split: prod.splits option.splits completion.splits)
  from doneHandler_safe [OF assms(1) wf1 _ d] obtain u where "x = Normal u" by auto
  with d have 2: "noNewViolation ?w1 w2" using doneHandler_clearing [OF assms(2)] by blast
  have 1: "noNewViolation w ?w1" by (simp add: noNewViolation_cells)
  have 3: "noNewViolation w2 w'" using w' by (auto simp: noNewViolation_refl noNewViolation_cells)
  from 1 2 3 show ?thesis using noNewViolation_trans by blast
qed

lemma acts_clearing:
  assumes sf: "safe run" and cl: "clearing run"
  shows "list_all calmAction as \<Longrightarrow> wellFormed w \<Longrightarrow> acts run as w = Some (r, w') \<Longrightarrow>
    noNewViolation w w'"
proof (induction as arbitrary: w)
  case Nil
  then show ?case by (simp add: noNewViolation_refl)
next
  case (Cons a as)
  from Cons.prems(1) have ca: "calmAction a" and cas: "list_all calmAction as" by simp_all
  have one: "x = Normal () \<and> wellFormed w1 \<and> noNewViolation w w1" if t: "act run a w = Some (x, w1)" for x w1
  proof (cases a)
    case (Invoke g)
    with t have r: "run g w = Some (x, w1)" by simp
    from ca Invoke have "callable w g" by (simp add: calm_callable)
    from safeD [OF sf Cons.prems(2) this r] have x: "x = Normal ()" and wf: "wellFormed w1" by simp_all
    from clearingD [OF cl r [unfolded x]] x wf show ?thesis by simp
  next
    case (Register c g)
    with ca have ok: "handlerOk b g" for b by (simp add: calm_handlerOk)
    from t [unfolded Register act_Register_Some] obtain y where d: "doneHandler run c g w = Some (y, w1)"
      and xy: "(\<exists>e. y = Throw e \<and> x = Throw e) \<or> (\<exists>u. y = Normal u \<and> x = Normal ())"
      by blast
    from doneHandler_safe [OF sf Cons.prems(2) ok d] obtain u where y: "y = Normal u" and wf: "wellFormed w1"
      by blast
    from doneHandler_clearing [OF cl d [unfolded y]] xy y wf show ?thesis by simp
  qed
  from Cons.prems(3) [unfolded acts_Cons_Some] consider
    (a) e where "act run a w = Some (Throw e, w')"
    | (b) w1 where "act run a w = Some (Normal (), w1)" "acts run as w1 = Some (r, w')"
    by blast
  then show ?case
  proof cases
    case a
    from one [OF a] show ?thesis by simp
  next
    case b
    from one [OF b(1)] have wf: "wellFormed w1" and v: "noNewViolation w w1" by simp_all
    from v Cons.IH [OF cas wf b(2)] show ?thesis by (rule noNewViolation_trans)
  qed
qed

lemma callOp_clearing:
  assumes "safe run" and "clearing run" and "calmOp f" and "wellFormed w"
    and "callOp run f w = Some (r, w')"
  shows "noNewViolation w w'"
proof (cases f)
  case (UserOp n as s)
  let ?w0 = "w\<lparr>trace := trace w @ [OpStarted n]\<rparr>"
  have wf0: "wellFormed ?w0" using assms(4) by (rule wellFormed_cells) simp
  have 0: "noNewViolation w ?w0" by (rule noNewViolation_cells) simp
  from assms(3) UserOp have c: "list_all calmAction as" by simp
  from assms(5) [unfolded UserOp callOp_Some] obtain x w1 where a: "acts run as ?w0 = Some (x, w1)"
    and w': "cells w' = cells w1"
    by auto
  from acts_clearing [OF assms(1,2) c wf0 a] have 1: "noNewViolation ?w0 w1" .
  have 2: "noNewViolation w1 w'" using w' by (rule noNewViolation_cells)
  from 0 1 2 show ?thesis using noNewViolation_trans by blast
qed

lemma raceExecutor_clearing:
  assumes "safe run" and "clearing run" and "calmOp f" and "wellFormed w"
    and "raceExecutor run c f p r w = Some (x, w')"
  shows "noNewViolation w w'"
proof -
  from assms(5) callOp_safe [OF assms(1,3,4)] obtain q w3 y w5 where
    a: "callOp run f w = Some (Normal q, w3)"
      "expiryPromise run c (thenPromise q (Some (RaceFulfilled r)) (Some (RejectFn p)) w3) = Some (y, w5)"
      "cells w' = cells w5"
    unfolding raceExecutor_Some by fastforce
  let ?w4 = "thenPromise q (Some (RaceFulfilled r)) (Some (RejectFn p)) w3"
  from callOp_safe [OF assms(1,3,4) a(1)] have "wellFormed w3" by simp
  then have wf4: "wellFormed ?w4" by (rule wellFormed_cells) simp
  have 1: "noNewViolation w w3" using a(1) by (rule callOp_clearing [OF assms(1,2,3,4)])
  have 2: "noNewViolation w3 ?w4" by (rule noNewViolation_cells) simp
  have 3: "noNewViolation ?w4 w5" using expiryPromise_clearing [OF assms(1,2) wf4 a(2)] .
  have 4: "noNewViolation w5 w'" using a(3) by (rule noNewViolation_cells)
  from 1 2 3 4 show ?thesis using noNewViolation_trans by blast
qed

lemma raceContext_clearing:
  assumes "safe run" and "clearing run" and "calmOp f" and "wellFormed w"
    and "raceContext run c f cl w = Some (r, w')"
  shows "noNewViolation w w'"
proof (cases "errorOf w c = JNull")
  case False
  with assms(5) show ?thesis
    by (auto simp: raceContext_def split: prod.splits dest!: cells_newPromise_eq intro: noNewViolation_cells)
next
  case True
  let ?w2 = "w\<lparr>promises := promises w @ [\<lparr>pstate = Pending, reactions = []\<rparr>],
               races := races w @ [\<lparr>aborted = False, cleanupFunc = cl, outer = length (promises w)\<rparr>]\<rparr>"
  from raceContext_active_Some [OF True assms(5)] obtain x w6
    where e: "raceExecutor run c f (length (promises w)) (length (races w)) ?w2 = Some (x, w6)"
      and w': "cells w' = cells w6"
    by auto
  have wf2: "wellFormed ?w2" using assms(4) by (rule wellFormed_cells) simp
  have 1: "noNewViolation w ?w2" by (rule noNewViolation_cells) simp
  have 2: "noNewViolation ?w2 w6" using e by (rule raceExecutor_clearing [OF assms(1,2,3) wf2])
  have 3: "noNewViolation w6 w'" using w' by (rule noNewViolation_cells)
  from 1 2 3 show ?thesis using noNewViolation_trans by blast
qed

lemma calmly_noNewViolation: "calmly w w' \<Longrightarrow> wellFormed w \<Longrightarrow> noNewViolation w w'"
proof (induction rule: calmly.induct)
  case (now w)
  show ?case by (rule noNewViolation_refl)
next
  case (call w w1 f n r w2)
  from calmly_wellFormed [OF call.hyps(1) call.prems] have wf1: "wellFormed w1" .
  from safeD [OF exec_safe wf1 calm_callable [OF call.hyps(2)] call.hyps(3)]
  have "r = Normal ()" by simp
  with call.hyps(3) have "noNewViolation w1 w2" using clearingD [OF exec_clearing] by blast
  with call.IH [OF call.prems] show ?case by (rule noNewViolation_trans)
next
  case (register w w1 f n c u w2)
  from calmly_wellFormed [OF register.hyps(1) register.prems] have wf1: "wellFormed w1" .
  from doneHandler_safe [OF exec_safe wf1 calm_handlerOk [OF register.hyps(2)] register.hyps(3)]
  obtain x where "u = Normal x" by auto
  with register.hyps(3) have "noNewViolation w1 w2" using doneHandler_clearing [OF exec_clearing] by blast
  with register.IH [OF register.prems] show ?case by (rule noNewViolation_trans)
next
  case (derive w w1 n c d x w2)
  from calmly_wellFormed [OF derive.hyps(1) derive.prems] have wf1: "wellFormed w1" .
  from withDeadline_safe [OF exec_safe wf1 derive.hyps(2)] obtain y where "x = Normal y" by auto
  with derive.hyps(2) have "noNewViolation w1 w2" using withDeadline_clearing [OF exec_clearing] by blast
  with derive.IH [OF derive.prems] show ?case by (rule noNewViolation_trans)
next
  case (expiry w w1 n c p w2)
  from calmly_wellFormed [OF expiry.hyps(1) expiry.prems] have wf1: "wellFormed w1" .
  from expiryPromise_clearing [OF exec_safe exec_clearing wf1 expiry.hyps(2)] expiry.IH [OF expiry.prems]
  show ?case using noNewViolation_trans by blast
next
  case (race w w1 n c op cl p w2)
  from calmly_wellFormed [OF race.hyps(1) race.prems] have wf1: "wellFormed w1" .
  from raceContext_clearing [OF exec_safe exec_clearing race.hyps(2) wf1 race.hyps(3)] race.IH [OF race.prems]
  show ?case using noNewViolation_trans by blast
next
  case (job w w1)
  have "noNewViolation w1 (runJob w1)" by (rule noNewViolation_cells) simp
  with job.IH [OF job.prems] show ?case by (rule noNewViolation_trans)
next
  case (settle w w1 p s)
  have "noNewViolation w1 (settlePromise p s w1)" by (rule noNewViolation_cells) simp
  with settle.IH [OF settle.prems] show ?case by (rule noNewViolation_trans)
next
  case (tick w w1 t ts)
  have "noNewViolation w1 (w1\<lparr>timers := ts, clock := t\<rparr>)" by (rule noNewViolation_cells) simp
  with tick.IH [OF tick.prems] show ?case by (rule noNewViolation_trans)
qed

lemma doneHandler_total: "\<exists>n r. doneHandler (exec n) c f w = Some r"
proof (cases "cancelCell c")
  case None
  then show ?thesis by (simp add: doneHandler_cancelCell [of _ c] ret_def)
next
  case (Some a)
  show ?thesis
  proof (cases "error (cellAt w a) = JNull")
    case True
    with Some show ?thesis by (simp add: doneHandler_cancelCell [of _ c] ret_def Let_def)
  next
    case False
    from exec_terminates [of f w] obtain n x w1 where "exec n f w = Some (x, w1)" by auto
    with Some False have "\<exists>r. doneHandler (exec n) c f w = Some r"
      by (cases x) (simp_all add: doneHandler_cancelCell [of _ c] andThen_def ret_def)
    then show ?thesis by blast
  qed
qed

lemma forEach_fires: "forEach run hs w = Some (Normal (), w') \<longleftrightarrow> fires run hs w w'"
proof (induction hs arbitrary: w)
  case Nil
  show ?case by auto
next
  case (Cons h hs)
  show ?case
  proof (cases "run h w")
    case None
    then show ?thesis by (simp add: andThen_def)
  next
    case (Some a)
    obtain x w1 where a: "a = (x, w1)" by (cases a)
    show ?thesis
    proof (cases x)
      case (Normal u)
      with Some a Cons.IH [of w1] show ?thesis by (simp add: andThen_def)
    next
      case (Throw e)
      with Some a show ?thesis by (simp add: andThen_def)
    qed
  qed
qed

text \<open>
  C10, as stated: whenever the error of a node is present its handler list would be empty,
  after every operation. A done handler that throws leaves the loop of the Done
  transition: the call of the trigger throws 7, the error of the node is present, and the
  node still stores both handlers, the second of which never ran.
\<close>

theorem throwing_handler_keeps_handlers:
  "throwingHandlerScenario = Some (Throw (JNum 7), JBool True, 2, False, [])"
  by code_simp

text \<open>
  C10, amended. As long as no function of the caller throws, every store the module
  builds keeps the invariant that a node whose error is present has an empty handler
  list. In such a store the Done transition of an Active node returns normally, after
  firing the stored handlers of the node, each once and in the order they were
  registered, then empties the list and releases the parent subscription; and
  \<^verbatim>\<open>doneHandler(f)\<close> on a context whose error is present does what calling \<open>f\<close> does,
  stores nothing, and returns \<^verbatim>\<open>_noop\<close>. Both calls end. Whatever the store and the
  callbacks in it, a function call, a registration or a derivation that returns normally
  keeps the invariant.
\<close>

theorem handlers_cleared_unless_thrown:
  assumes "wellFormed w" and "handlersCleared w" and "calmly w w'"
  shows "handlersCleared w' \<and> wellFormed w'
     \<and> (\<forall>this e rest n r w''.
           this < length (cells w') \<longrightarrow> error (cellAt w' this) = JNull \<longrightarrow> \<not> falsy e \<longrightarrow>
           symCancelFunc (exec n) this (e # rest) w' = Some (r, w'') \<longrightarrow>
             r = Normal () \<and> error (cellAt w'' this) = e \<and> doneHandlers (cellAt w'' this) = []
             \<and> handlersCleared w''
             \<and> (\<exists>w2. fires (exec n) (map snd (doneHandlers (cellAt w' this)))
                         (setCell this (\<lambda>c. c\<lparr>error := e\<rparr>) w') w2
                    \<and> (case unregParentFunc (cellAt (setCell this (\<lambda>c. c\<lparr>doneHandlers := []\<rparr>) w2) this) of
                         None \<Rightarrow> w'' = setCell this (\<lambda>c. c\<lparr>doneHandlers := []\<rparr>) w2
                       | Some u \<Rightarrow>
                           (\<exists>w4. exec n u (setCell this (\<lambda>c. c\<lparr>doneHandlers := []\<rparr>) w2) = Some (Normal (), w4)
                              \<and> w'' = setCell this (\<lambda>c. c\<lparr>unregParentFunc := None\<rparr>) w4))))
     \<and> (\<forall>c f n r w''.
           errorOf w' c \<noteq> JNull \<longrightarrow> doneHandler (exec n) c f w' = Some (r, w'') \<longrightarrow>
             (\<exists>r'. exec n f w' = Some (r', w'')
                  \<and> r = (case r' of Normal u \<Rightarrow> Normal Noop | Throw x \<Rightarrow> Throw x))
             \<and> (calm f \<longrightarrow> r = Normal Noop \<and> handlersCleared w''))
     \<and> (\<forall>this e rest. \<exists>n r w''. symCancelFunc (exec n) this (e # rest) w' = Some (r, w''))
     \<and> (\<forall>c f. \<exists>n r w''. doneHandler (exec n) c f w' = Some (r, w''))
     \<and> (\<forall>v f n v'. handlersCleared v \<longrightarrow> exec n f v = Some (Normal (), v') \<longrightarrow> handlersCleared v')
     \<and> (\<forall>v c f n u v'. handlersCleared v \<longrightarrow> doneHandler (exec n) c f v = Some (Normal u, v') \<longrightarrow>
           handlersCleared v')
     \<and> (\<forall>v c d n x v'. handlersCleared v \<longrightarrow> withDeadline (exec n) c d v = Some (Normal x, v') \<longrightarrow>
           handlersCleared v')"
proof -
  have wf': "wellFormed w'" using assms(3,1) by (rule calmly_wellFormed)
  have hc': "handlersCleared w'"
    using assms(2) calmly_noNewViolation [OF assms(3,1)] by (rule handlersCleared_noNewViolation)
  have trans: "r = Normal () \<and> error (cellAt w'' this) = e \<and> doneHandlers (cellAt w'' this) = []
             \<and> handlersCleared w''
             \<and> (\<exists>w2. fires (exec n) (map snd (doneHandlers (cellAt w' this)))
                         (setCell this (\<lambda>c. c\<lparr>error := e\<rparr>) w') w2
                    \<and> (case unregParentFunc (cellAt (setCell this (\<lambda>c. c\<lparr>doneHandlers := []\<rparr>) w2) this) of
                         None \<Rightarrow> w'' = setCell this (\<lambda>c. c\<lparr>doneHandlers := []\<rparr>) w2
                       | Some u \<Rightarrow>
                           (\<exists>w4. exec n u (setCell this (\<lambda>c. c\<lparr>doneHandlers := []\<rparr>) w2) = Some (Normal (), w4)
                              \<and> w'' = setCell this (\<lambda>c. c\<lparr>unregParentFunc := None\<rparr>) w4)))"
    if a: "this < length (cells w')" "error (cellAt w' this) = JNull" "\<not> falsy e"
      and s: "symCancelFunc (exec n) this (e # rest) w' = Some (r, w'')"
    for this e rest n r w''
  proof -
    let ?w1 = "setCell this (\<lambda>c. c\<lparr>error := e\<rparr>) w'"
    from symCancelFunc_safe [OF exec_safe exec_stepping wf' _ s] a(3) have r: "r = Normal ()" by simp
    from symCancelFunc_clearing [OF exec_clearing s [unfolded r]] hc'
    have hc'': "handlersCleared w''" using handlersCleared_noNewViolation by blast
    from symCancelFunc_sets_error [OF exec_stepping _ a(2,1) s] a(3)
    have err: "error (cellAt w'' this) = e" by simp
    moreover have "e \<noteq> JNull" using a(3) by auto
    ultimately have h: "doneHandlers (cellAt w'' this) = []"
      using hc'' by (auto simp: handlersCleared_iff violated_def)
    have hs: "map snd (doneHandlers (cellAt ?w1 this)) = map snd (doneHandlers (cellAt w' this))"
      by (simp add: cellAt_setCell)
    from s have "\<exists>w2. fires (exec n) (map snd (doneHandlers (cellAt w' this))) ?w1 w2
                    \<and> (case unregParentFunc (cellAt (setCell this (\<lambda>c. c\<lparr>doneHandlers := []\<rparr>) w2) this) of
                         None \<Rightarrow> w'' = setCell this (\<lambda>c. c\<lparr>doneHandlers := []\<rparr>) w2
                       | Some u \<Rightarrow>
                           (\<exists>w4. exec n u (setCell this (\<lambda>c. c\<lparr>doneHandlers := []\<rparr>) w2) = Some (Normal (), w4)
                              \<and> w'' = setCell this (\<lambda>c. c\<lparr>unregParentFunc := None\<rparr>) w4))"
    proof (cases rule: symCancelFunc_cases)
      case absent
      with a(3) show ?thesis by simp
    next
      case already
      with a(2) show ?thesis by simp
    next
      case (handlerThrow x)
      with r show ?thesis by simp
    next
      case (noParent w2)
      from noParent(3) have "fires (exec n) (map snd (doneHandlers (cellAt w' this))) ?w1 w2"
        by (simp add: forEach_fires hs)
      with noParent(4,6) show ?thesis by (intro exI [of _ w2]) simp
    next
      case (parentThrow w2 u x)
      with r show ?thesis by simp
    next
      case (completed w2 u w4)
      from completed(3) have "fires (exec n) (map snd (doneHandlers (cellAt w' this))) ?w1 w2"
        by (simp add: forEach_fires hs)
      with completed(4,5,7) show ?thesis by (intro exI [of _ w2]) simp
    qed
    with r err h hc'' show ?thesis by simp
  qed
  have reg: "(\<exists>r'. exec n f w' = Some (r', w'')
                  \<and> r = (case r' of Normal u \<Rightarrow> Normal Noop | Throw x \<Rightarrow> Throw x))
             \<and> (calm f \<longrightarrow> r = Normal Noop \<and> handlersCleared w'')"
    if e: "errorOf w' c \<noteq> JNull" and d: "doneHandler (exec n) c f w' = Some (r, w'')"
    for c f n r w''
  proof -
    from e obtain a where a: "cancelCell c = Some a" "error (cellAt w' a) \<noteq> JNull"
      by (cases "cancelCell c") (auto simp: errorOf_cancelCell)
    with d obtain r' where r': "exec n f w' = Some (r', w'')"
      and r: "r = (case r' of Normal u \<Rightarrow> Normal Noop | Throw x \<Rightarrow> Throw x)"
      by (auto simp: doneHandler_cancelCell [of _ c] andThen_Some)
    have "r = Normal Noop \<and> handlersCleared w''" if u: "calm f"
    proof -
      from safeD [OF exec_safe wf' calm_callable [OF u] r'] have n: "r' = Normal ()" by simp
      from clearingD [OF exec_clearing r' [unfolded n]] hc'
      have "handlersCleared w''" using handlersCleared_noNewViolation by blast
      with r n show ?thesis by simp
    qed
    with r r' show ?thesis by blast
  qed
  have ends: "\<exists>n r w''. symCancelFunc (exec n) this (e # rest) w' = Some (r, w'')" for this e rest
    using symCancelFunc_total [of this "e # rest" w'] by auto
  have regs: "\<exists>n r w''. doneHandler (exec n) c f w' = Some (r, w'')" for c f
    using doneHandler_total [of c f w'] by auto
  have k1: "handlersCleared v'" if "handlersCleared v" "exec n f v = Some (Normal (), v')" for v f n v'
    using that clearingD [OF exec_clearing] handlersCleared_noNewViolation by blast
  have k2: "handlersCleared v'" if "handlersCleared v" "doneHandler (exec n) c f v = Some (Normal u, v')"
    for v c f n u v'
    using that doneHandler_clearing [OF exec_clearing] handlersCleared_noNewViolation by blast
  have k3: "handlersCleared v'" if "handlersCleared v" "withDeadline (exec n) c d v = Some (Normal x, v')"
    for v c d n x v'
    using that withDeadline_clearing [OF exec_clearing] handlersCleared_noNewViolation by blast
  show ?thesis
    apply (intro conjI)
    subgoal by (rule hc')
    subgoal by (rule wf')
    subgoal by (intro allI impI) (rule trans; assumption)
    subgoal by (intro allI impI) (rule reg; assumption)
    subgoal by (intro allI) (rule ends)
    subgoal by (intro allI) (rule regs)
    subgoal by (intro allI impI) (rule k1; assumption)
    subgoal by (intro allI impI) (rule k2; assumption)
    subgoal by (intro allI impI) (rule k3; assumption)
    done
qed

theorem handlers_cleared_unless_thrown_witness:
  "wellFormed emptyWorld \<and> handlersCleared emptyWorld \<and> calmly emptyWorld logWorld
   \<and> handlersCleared logWorld \<and> wellFormed logWorld
   \<and> (\<exists>w''. symCancelFunc (exec 2) 0 [JBool True, JError CancelledError] logWorld = Some (Normal (), w'')
          \<and> error (cellAt w'' 0) = JBool True \<and> doneHandlers (cellAt w'' 0) = []
          \<and> trace w'' = [UserRan 1, UserRan 2] \<and> handlersCleared w'')"
proof -
  have h1: "wellFormed emptyWorld" by (simp add: wellFormed_def emptyWorld_def)
  have h2: "handlersCleared emptyWorld" by (simp add: handlersCleared_def emptyWorld_def)
  have "withDeadline (exec (Suc 0)) background None emptyWorld
          = Some (Normal (CancelContext background None 0, CancelTrigger 0), activeWorld)"
    by (simp add: withDeadline_def allocCell_def initCancelContext_def background_def emptyWorld_def
        activeWorld_def andThen_def ret_def setCell_def cellAt_def freshCell_def)
  from calmly.derive [OF calmly.now this] have l1: "calmly emptyWorld activeWorld" .
  let ?w1 = "emptyWorld\<lparr>cells := [\<lparr>error = JNull, doneHandlers = [(0, UserLog 1)],
                               unregParentFunc = Some Noop\<rparr>], nextSym := 1\<rparr>"
  have "doneHandler (exec 0) (CancelContext background None 0) (UserLog 1) activeWorld
          = Some (Normal (Unregister 0 0), ?w1)"
    by (simp add: activeWorld_def emptyWorld_def ret_def setCell_def cellAt_def Let_def)
  from calmly.register [OF l1 _ this] have l2: "calmly emptyWorld ?w1" by simp
  have "doneHandler (exec 0) (CancelContext background None 0) (UserLog 2) ?w1
          = Some (Normal (Unregister 0 1), logWorld)"
    by (simp add: logWorld_def emptyWorld_def ret_def setCell_def cellAt_def Let_def)
  from calmly.register [OF l2 _ this] have h3: "calmly emptyWorld logWorld" by simp
  have a1: "0 < length (cells logWorld)" by (simp add: logWorld_def)
  have a2: "error (cellAt logWorld 0) = JNull" by (simp add: logWorld_def cellAt_def)
  have a3: "\<not> falsy (JBool True)" by simp
  obtain r w'' where s: "symCancelFunc (exec 2) 0 [JBool True, JError CancelledError] logWorld = Some (r, w'')"
    and t: "trace w'' = [UserRan 1, UserRan 2]"
    by (simp add: symCancelFunc_def logWorld_def emptyWorld_def andThen_def ret_def setCell_def
        cellAt_def numeral_2_eq_2)
  note main = handlers_cleared_unless_thrown [OF h1 h2 h3]
  from main have c1: "handlersCleared logWorld" and c2: "wellFormed logWorld" by simp_all
  from main [THEN conjunct2, THEN conjunct2, THEN conjunct1, rule_format, OF a1 a2 a3 s]
  have c3: "r = Normal ()" "error (cellAt w'' 0) = JBool True" "doneHandlers (cellAt w'' 0) = []"
    "handlersCleared w''"
    by simp_all
  from h1 h2 h3 c1 c2 c3 s t show ?thesis by simp
qed

section \<open>Propagation along a chain\<close>

lemma quietD: "quiet run \<Longrightarrow> inert f \<Longrightarrow> run f w = Some (r, w') \<Longrightarrow> r = Normal () \<and> cells w' = cells w"
  unfolding quiet_def by blast

lemma forEach_quiet:
  assumes "quiet run"
  shows "list_all inert fs \<Longrightarrow> forEach run fs w = Some (r, w') \<Longrightarrow> r = Normal () \<and> cells w' = cells w"
proof (induction fs arbitrary: w)
  case Nil
  then show ?case by simp
next
  case (Cons h hs)
  from Cons.prems(1) have ih: "inert h" and ihs: "list_all inert hs" by simp_all
  from Cons.prems(2) consider
    (a) e where "run h w = Some (Throw e, w')" "r = Throw e"
    | (b) w1 where "run h w = Some (Normal (), w1)" "forEach run hs w1 = Some (r, w')"
    unfolding forEach_Cons_Some by blast
  then show ?case
  proof cases
    case a
    from quietD [OF assms ih a(1)] show ?thesis by simp
  next
    case b
    from quietD [OF assms ih b(1)] have "cells w1 = cells w" by simp
    with Cons.IH [OF ihs b(2)] show ?thesis by simp
  qed
qed

lemma call_quiet:
  assumes "quiet run" and "inert f" and "call run f w = Some (r, w')"
  shows "r = Normal () \<and> cells w' = cells w"
proof (cases f)
  case (UserSeq fs)
  with assms(2) have "list_all inert fs" by simp
  from forEach_quiet [OF assms(1) this] assms(3) UserSeq show ?thesis by simp
qed (use assms in auto)

lemma exec_quiet: "quiet (exec n)"
proof (induction n)
  case 0
  show ?case by (simp add: quiet_def)
next
  case (Suc n)
  show ?case
    unfolding quiet_def
  proof (intro allI impI)
    fix f w r w'
    assume i: "inert f" and "exec (Suc n) f w = Some (r, w')"
    then have "call (exec n) f w = Some (r, w')" by simp
    from call_quiet [OF Suc i this] show "r = Normal () \<and> cells w' = cells w" .
  qed
qed

lemma forEach_append:
  "forEach run (xs @ ys) w = andThen (forEach run xs w) (\<lambda>_. forEach run ys)"
proof (induction xs arbitrary: w)
  case Nil
  show ?case by (simp add: andThen_def ret_def)
next
  case (Cons x xs)
  show ?case
    by (cases "run x w") (auto simp: andThen_def Cons.IH split: completion.splits)
qed

lemma tame_iff:
  "tame w \<longleftrightarrow>
     (\<forall>a < length (cells w). error (cellAt w a) = JNull \<longrightarrow>
        list_all (propagating a) (map snd (doneHandlers (cellAt w a))))"
  by (auto simp: tame_def list_all_iff cellAt_def)

lemma carried_cells: "cells w' = cells w \<Longrightarrow> carried e w w'"
  by (simp add: carried_def cellAt_def)

lemma carriedD:
  assumes "carried e w w'"
  shows "length (cells w') = length (cells w)"
    and "error (cellAt w x) \<noteq> JNull \<Longrightarrow> error (cellAt w' x) = error (cellAt w x)"
    and "error (cellAt w' x) = JNull \<Longrightarrow> doneHandlers (cellAt w' x) = doneHandlers (cellAt w x)"
    and "error (cellAt w x) = JNull \<Longrightarrow> error (cellAt w' x) \<noteq> JNull \<Longrightarrow> error (cellAt w' x) = e"
  using assms unfolding carried_def by blast+

lemma carried_active: "carried e w w' \<Longrightarrow> error (cellAt w' x) = JNull \<Longrightarrow> error (cellAt w x) = JNull"
  using carriedD(2) by fastforce

lemma carried_trans:
  assumes 1: "carried e w w1" and 2: "carried e w1 w2"
  shows "carried e w w2"
  unfolding carried_def
proof (intro conjI allI impI)
  show "length (cells w2) = length (cells w)" using carriedD(1) [OF 1] carriedD(1) [OF 2] by simp
next
  fix x assume "error (cellAt w x) \<noteq> JNull"
  then show "error (cellAt w2 x) = error (cellAt w x)"
    using carriedD(2) [OF 1, of x] carriedD(2) [OF 2, of x] by simp
next
  fix x assume a: "error (cellAt w2 x) = JNull"
  from carried_active [OF 2 a] have b: "error (cellAt w1 x) = JNull" .
  from carriedD(3) [OF 2 a] carriedD(3) [OF 1 b]
  show "doneHandlers (cellAt w2 x) = doneHandlers (cellAt w x)" by simp
next
  fix x assume a: "error (cellAt w x) = JNull" and b: "error (cellAt w2 x) \<noteq> JNull"
  show "error (cellAt w2 x) = e"
  proof (cases "error (cellAt w1 x) = JNull")
    case True
    from carriedD(4) [OF 2 True b] show ?thesis .
  next
    case False
    from carriedD(4) [OF 1 a False] carriedD(2) [OF 2 False] show ?thesis by simp
  qed
qed

lemma tame_carried:
  assumes "tame w" and "carried e w w'"
  shows "tame w'"
  unfolding tame_iff
proof (intro allI impI)
  fix a assume a: "a < length (cells w')" "error (cellAt w' a) = JNull"
  from carried_active [OF assms(2) a(2)] have "error (cellAt w a) = JNull" .
  moreover from a(1) carriedD(1) [OF assms(2)] have "a < length (cells w)" by simp
  ultimately have "list_all (propagating a) (map snd (doneHandlers (cellAt w a)))"
    using assms(1) unfolding tame_iff by blast
  with carriedD(3) [OF assms(2) a(2)]
  show "list_all (propagating a) (map snd (doneHandlers (cellAt w' a)))" by simp
qed

lemma reached_cells: "cells w' = cells w \<Longrightarrow> reached w w'"
  by (simp add: reached_def cellAt_def)

lemma reachedD:
  "reached w w' \<Longrightarrow> error (cellAt w x) = JNull \<Longrightarrow> error (cellAt w' x) \<noteq> JNull \<Longrightarrow>
   ParentDone b q \<in> set (map snd (doneHandlers (cellAt w x))) \<Longrightarrow> b < length (cells w) \<Longrightarrow>
   error (cellAt w' b) \<noteq> JNull"
  unfolding reached_def by blast

lemma reached_trans:
  assumes c1: "carried e w w1" and r1: "reached w w1" and c2: "carried e w1 w2" and r2: "reached w1 w2"
  shows "reached w w2"
  unfolding reached_def
proof (intro allI impI)
  fix x b q
  assume a: "error (cellAt w x) = JNull" "error (cellAt w2 x) \<noteq> JNull"
    "ParentDone b q \<in> set (map snd (doneHandlers (cellAt w x)))" "b < length (cells w)"
  show "error (cellAt w2 b) \<noteq> JNull"
  proof (cases "error (cellAt w1 x) = JNull")
    case True
    from carriedD(3) [OF c1 True] a(3)
    have "ParentDone b q \<in> set (map snd (doneHandlers (cellAt w1 x)))" by simp
    moreover from a(4) carriedD(1) [OF c1] have "b < length (cells w1)" by simp
    ultimately show ?thesis using reachedD [OF r2 True a(2)] by blast
  next
    case False
    from reachedD [OF r1 a(1) False a(3,4)] have "error (cellAt w1 b) \<noteq> JNull" .
    with carriedD(2) [OF c2, of b] show ?thesis by simp
  qed
qed

lemma propagatesD:
  "propagates e run \<Longrightarrow> tame w \<Longrightarrow> cancelCell q = Some a \<Longrightarrow> error (cellAt w a) = e \<Longrightarrow>
   run (ParentDone b q) w = Some (r, w') \<Longrightarrow>
   r = Normal () \<and> carried e w w' \<and> reached w w' \<and> (b < length (cells w) \<longrightarrow> error (cellAt w' b) \<noteq> JNull)"
  unfolding propagates_def by blast

lemma tame_cells: "tame w \<Longrightarrow> cells w' = cells w \<Longrightarrow> tame w'"
  by (simp add: tame_iff cellAt_def)

lemma forEach_propagates:
  assumes q: "quiet run" and pr: "propagates e run" and nf: "\<not> falsy e"
  shows "list_all (propagating a) hs \<Longrightarrow> tame w \<Longrightarrow> error (cellAt w a) = e \<Longrightarrow>
    forEach run hs w = Some (r, w') \<Longrightarrow>
    r = Normal () \<and> carried e w w' \<and> reached w w'
    \<and> (\<forall>b q. ParentDone b q \<in> set hs \<longrightarrow> b < length (cells w) \<longrightarrow> error (cellAt w' b) \<noteq> JNull)"
proof (induction hs arbitrary: w)
  case Nil
  then show ?case by (simp add: carried_cells reached_cells)
next
  case (Cons h hs)
  have en: "e \<noteq> JNull" using nf by auto
  from Cons.prems(1) have ph: "propagating a h" and phs: "list_all (propagating a) hs" by simp_all
  have one: "x = Normal () \<and> carried e w w1 \<and> reached w w1
      \<and> (\<forall>b q. h = ParentDone b q \<longrightarrow> b < length (cells w) \<longrightarrow> error (cellAt w1 b) \<noteq> JNull)"
    if t: "run h w = Some (x, w1)" for x w1
  proof (cases "inert h")
    case True
    from quietD [OF q True t] have "x = Normal ()" "cells w1 = cells w" by simp_all
    moreover from True have "h \<noteq> ParentDone b q" for b q by auto
    ultimately show ?thesis by (simp add: carried_cells reached_cells)
  next
    case False
    with ph obtain b q where h: "h = ParentDone b q" and c: "cancelCell q = Some a"
      by (cases h) simp_all
    from propagatesD [OF pr Cons.prems(2) c Cons.prems(3) t [unfolded h]] h show ?thesis by simp
  qed
  from Cons.prems(4) [unfolded forEach_Cons_Some] consider
    (a) x where "run h w = Some (Throw x, w')"
    | (b) w1 where "run h w = Some (Normal (), w1)" "forEach run hs w1 = Some (r, w')"
    by blast
  then show ?case
  proof cases
    case a
    from one [OF a] show ?thesis by simp
  next
    case b
    from one [OF b(1)] have c1: "carried e w w1" and r1: "reached w w1"
      and d1: "\<forall>b q. h = ParentDone b q \<longrightarrow> b < length (cells w) \<longrightarrow> error (cellAt w1 b) \<noteq> JNull"
      by simp_all
    have t1: "tame w1" using Cons.prems(2) c1 by (rule tame_carried)
    have e1: "error (cellAt w1 a) = e" using carriedD(2) [OF c1, of a] Cons.prems(3) en by simp
    from Cons.IH [OF phs t1 e1 b(2)] have r: "r = Normal ()" and c2: "carried e w1 w'"
      and r2: "reached w1 w'"
      and d2: "\<forall>b q. ParentDone b q \<in> set hs \<longrightarrow> b < length (cells w1) \<longrightarrow> error (cellAt w' b) \<noteq> JNull"
      by simp_all
    have d: "error (cellAt w' b) \<noteq> JNull" if "ParentDone b q \<in> set (h # hs)" "b < length (cells w)" for b q
    proof (cases "h = ParentDone b q")
      case True
      with d1 that(2) have "error (cellAt w1 b) \<noteq> JNull" by simp
      with carriedD(2) [OF c2, of b] show ?thesis by simp
    next
      case False
      with that(1) have "ParentDone b q \<in> set hs" by simp
      with d2 that(2) carriedD(1) [OF c1] show ?thesis by auto
    qed
    from r carried_trans [OF c1 c2] reached_trans [OF c1 r1 c2 r2] d show ?thesis by blast
  qed
qed


lemma steps_unreg:
  "steps w w' \<Longrightarrow> unregParentFunc (cellAt w a) = None \<Longrightarrow> unregParentFunc (cellAt w' a) = None"
  by (induction rule: steps.induct) (auto simp: cellAt_setCell cellStep_def)

lemma carried_setCell:
  assumes "error (f (cellAt w b)) = error (cellAt w b) \<or> (error (cellAt w b) = JNull \<and> error (f (cellAt w b)) = e)"
    and "error (f (cellAt w b)) = JNull \<longrightarrow> doneHandlers (f (cellAt w b)) = doneHandlers (cellAt w b)"
  shows "carried e w (setCell b f w)"
  using assms by (auto simp: carried_def cellAt_setCell)

lemma reached_same:
  "(\<And>x. error (cellAt w x) = JNull \<Longrightarrow> error (cellAt w' x) = JNull) \<Longrightarrow> reached w w'"
  unfolding reached_def by blast

lemma symCancelFunc_dangling:
  assumes "\<not> b < length (cells w)" and "\<not> falsy e" and "symCancelFunc run b [e] w = Some (r, w')"
  shows "r = Normal () \<and> cells w' = cells w"
  using assms
  by (auto simp: symCancelFunc_def cellAt_def setCell_def freshCell_def Let_def andThen_def ret_def
      list_update_beyond not_less)

lemma symCancelFunc_propagates:
  assumes q: "quiet run" and st: "stepping run" and pr: "propagates e run" and nf: "\<not> falsy e"
    and tm: "tame w" and un: "unregParentFunc (cellAt w b) = None"
    and s: "symCancelFunc run b [e] w = Some (r, w')"
  shows "r = Normal () \<and> carried e w w' \<and> reached w w'
     \<and> (b < length (cells w) \<longrightarrow> error (cellAt w' b) \<noteq> JNull)"
proof (cases "b < length (cells w)")
  case False
  from symCancelFunc_dangling [OF False nf s] have "r = Normal ()" "cells w' = cells w" by simp_all
  with False show ?thesis by (simp add: carried_cells reached_cells)
next
  case bl: True
  have en: "e \<noteq> JNull" using nf by auto
  let ?w1 = "setCell b (\<lambda>c. c\<lparr>error := e\<rparr>) w"
  let ?hs = "map snd (doneHandlers (cellAt w b))"
  have hs1: "map snd (doneHandlers (cellAt ?w1 b)) = ?hs" by (simp add: cellAt_setCell)
  have arg: "arg 0 [e] = e" by simp
  from s show ?thesis
  proof (cases rule: symCancelFunc_cases)
    case absent
    with nf show ?thesis by simp
  next
    case already
    then show ?thesis by (simp add: carried_cells reached_cells)
  next
    case (handlerThrow x)
    note act = handlerThrow(2)
    have c01: "carried e w ?w1" using act by (intro carried_setCell) simp_all
    have t1: "tame ?w1" using tm c01 by (rule tame_carried)
    have e1: "error (cellAt ?w1 b) = e" using bl by (simp add: cellAt_setCell)
    have ph: "list_all (propagating b) ?hs" using tm bl act unfolding tame_iff by blast
    from forEach_propagates [OF q pr nf ph t1 e1 handlerThrow(3) [unfolded arg hs1]] show ?thesis by simp
  next
    case (noParent w2)
    note act = noParent(2)
    have c01: "carried e w ?w1" using act by (intro carried_setCell) simp_all
    have t1: "tame ?w1" using tm c01 by (rule tame_carried)
    have e1: "error (cellAt ?w1 b) = e" using bl by (simp add: cellAt_setCell)
    have ph: "list_all (propagating b) ?hs" using tm bl act unfolding tame_iff by blast
    from forEach_propagates [OF q pr nf ph t1 e1 noParent(3) [unfolded arg hs1]]
    have c12: "carried e ?w1 w2" and r12: "reached ?w1 w2"
      and d: "\<forall>y q. ParentDone y q \<in> set ?hs \<longrightarrow> y < length (cells ?w1) \<longrightarrow> error (cellAt w2 y) \<noteq> JNull"
      by simp_all
    have e2: "error (cellAt w2 b) = e" using carriedD(2) [OF c12, of b] e1 en by simp
    have c23: "carried e w2 w'" unfolding noParent(6) using e2 en by (intro carried_setCell) simp_all
    have c02: "carried e w w2" using c01 c12 by (rule carried_trans)
    have c: "carried e w w'" using c02 c23 by (rule carried_trans)
    have err': "error (cellAt w' x) = error (cellAt w2 x)" for x
      unfolding noParent(6) by (simp add: cellAt_setCell)
    have "reached w w'"
      unfolding reached_def
    proof (intro allI impI)
      fix x y q'
      assume a: "error (cellAt w x) = JNull" "error (cellAt w' x) \<noteq> JNull"
        "ParentDone y q' \<in> set (map snd (doneHandlers (cellAt w x)))" "y < length (cells w)"
      show "error (cellAt w' y) \<noteq> JNull"
      proof (cases "x = b")
        case True
        with a(3,4) d have "error (cellAt w2 y) \<noteq> JNull" by auto
        then show ?thesis by (simp add: err')
      next
        case False
        then have "cellAt ?w1 x = cellAt w x" by (simp add: cellAt_setCell)
        with a reachedD [OF r12, of x y q'] show ?thesis by (simp add: err')
      qed
    qed
    with c noParent(5) e2 en show ?thesis by (simp add: err')
  next
    case (parentThrow w2 u x)
    from forEach_steps [OF st parentThrow(3)] have "steps ?w1 w2" by simp
    moreover have "unregParentFunc (cellAt ?w1 b) = None" using un by (simp add: cellAt_setCell)
    ultimately have "unregParentFunc (cellAt w2 b) = None" by (rule steps_unreg)
    with parentThrow(4) show ?thesis by (simp add: cellAt_setCell split: if_splits)
  next
    case (completed w2 u w4)
    from forEach_steps [OF st completed(3)] have "steps ?w1 w2" by simp
    moreover have "unregParentFunc (cellAt ?w1 b) = None" using un by (simp add: cellAt_setCell)
    ultimately have "unregParentFunc (cellAt w2 b) = None" by (rule steps_unreg)
    with completed(4) show ?thesis by (simp add: cellAt_setCell split: if_splits)
  qed
qed


lemma call_propagates:
  assumes q: "quiet run" and st: "stepping run" and pr: "propagates e run" and nf: "\<not> falsy e"
  shows "propagates e (call run)"
  unfolding propagates_def
proof (intro allI impI)
  fix b q' a w r w'
  assume tm: "tame w" and c: "cancelCell q' = Some a" and ea: "error (cellAt w a) = e"
    and s: "call run (ParentDone b q') w = Some (r, w')"
  let ?w1 = "setCell b (\<lambda>c. c\<lparr>unregParentFunc := None\<rparr>) w"
  have c01: "carried e w ?w1" by (intro carried_setCell) simp_all
  have r01: "reached w ?w1" by (rule reached_same) (auto simp: cellAt_setCell)
  have t1: "tame ?w1" using tm c01 by (rule tame_carried)
  have "errorOf ?w1 q' = e" using c ea by (auto simp: errorOf_cancelCell cellAt_setCell)
  with s have s1: "symCancelFunc run b [e] ?w1 = Some (r, w')" by (simp add: Let_def)
  have un: "unregParentFunc (cellAt ?w1 b) = None"
    by (cases "b < length (cells w)") (simp_all add: cellAt_setCell cellAt_dangling freshCell_def)
  from symCancelFunc_propagates [OF q st pr nf t1 un s1]
  have r: "r = Normal ()" and c1: "carried e ?w1 w'" and r1: "reached ?w1 w'"
    and d: "b < length (cells w) \<longrightarrow> error (cellAt w' b) \<noteq> JNull"
    by simp_all
  from r carried_trans [OF c01 c1] reached_trans [OF c01 r01 c1 r1] d
  show "r = Normal () \<and> carried e w w' \<and> reached w w'
     \<and> (b < length (cells w) \<longrightarrow> error (cellAt w' b) \<noteq> JNull)"
    by simp
qed

lemma exec_propagates: "\<not> falsy e \<Longrightarrow> propagates e (exec n)"
proof (induction n)
  case 0
  show ?case by (simp add: propagates_def)
next
  case (Suc n)
  have "propagates e (call (exec n))"
    using exec_quiet exec_stepping Suc.IH [OF Suc.prems] Suc.prems by (rule call_propagates)
  then show ?case by (simp add: propagates_def)
qed

lemma chain_reached:
  assumes c: "carried e w w'" and r: "reached w w'"
  shows "chainFrom w a cs \<Longrightarrow> error (cellAt w a) = JNull \<Longrightarrow> error (cellAt w' a) \<noteq> JNull \<Longrightarrow>
    \<forall>x \<in> set cs. errorOf w' x = e"
proof (induction cs arbitrary: a)
  case Nil
  show ?case by simp
next
  case (Cons x cs)
  from Cons.prems(1) obtain p d b where x: "x = CancelContext p d b" by (cases x) simp_all
  from Cons.prems(1) x have l: "cancelCell p = Some a"
    "ParentDone b p \<in> set (map snd (doneHandlers (cellAt w a)))"
    "b < length (cells w)" "error (cellAt w b) = JNull" "chainFrom w b cs"
    by simp_all
  from reachedD [OF r Cons.prems(2,3) l(2,3)] have db: "error (cellAt w' b) \<noteq> JNull" .
  from carriedD(4) [OF c l(4) db] have "errorOf w' x = e" by (simp add: x)
  moreover from Cons.IH [OF l(5) l(4) db] have "\<forall>y \<in> set cs. errorOf w' y = e" .
  ultimately show ?case by simp
qed

lemma symCancelFunc_live_forEach:
  assumes "stepping run" and "\<not> falsy (arg 0 args)" and "error (cellAt w this) = JNull"
    and "symCancelFunc run this args w = Some (r, w')"
  shows "\<exists>rf w2. forEach run (map snd (doneHandlers (cellAt (setCell this (\<lambda>c. c\<lparr>error := arg 0 args\<rparr>) w) this)))
            (setCell this (\<lambda>c. c\<lparr>error := arg 0 args\<rparr>) w) = Some (rf, w2) \<and> steps w2 w'"
proof -
  note rn = steppingD [OF assms(1)]
  from assms(4) show ?thesis
  proof (cases rule: symCancelFunc_cases)
    case absent
    with assms(2) show ?thesis by simp
  next
    case already
    with assms(3) show ?thesis by simp
  next
    case (handlerThrow e)
    from handlerThrow(3) steps.same show ?thesis by blast
  next
    case (noParent w2)
    have "steps w2 w'" unfolding noParent by (rule steps_setCell) (simp add: cellStep_def)
    with noParent(3) show ?thesis by blast
  next
    case (parentThrow w2 u e)
    have "steps w2 (setCell this (\<lambda>c. c\<lparr>doneHandlers := []\<rparr>) w2)"
      by (rule steps_setCell) (simp add: cellStep_def)
    with rn [OF parentThrow(5)] have "steps w2 w'" by (rule steps_trans)
    with parentThrow(3) show ?thesis by blast
  next
    case (completed w2 u w4)
    have "steps w2 (setCell this (\<lambda>c. c\<lparr>doneHandlers := []\<rparr>) w2)"
      by (rule steps_setCell) (simp add: cellStep_def)
    with rn [OF completed(5)] have "steps w2 w4" by (rule steps_trans)
    then have "steps w2 w'" unfolding completed by (rule steps.update) (simp add: cellStep_def)
    with completed(3) show ?thesis by blast
  qed
qed

lemma chain_descent:
  assumes tm: "tame w" and al: "a < length (cells w)" and act: "error (cellAt w a) = JNull"
    and nf: "\<not> falsy (arg 0 args)" and ch: "chainFrom w a cs"
    and s: "symCancelFunc (exec n) a args w = Some (r, w')"
  shows "error (cellAt w' a) = arg 0 args \<and> (\<forall>c \<in> set cs. errorOf w' c = arg 0 args)"
proof -
  let ?e = "arg 0 args"
  let ?w1 = "setCell a (\<lambda>c. c\<lparr>error := ?e\<rparr>) w"
  let ?hs = "map snd (doneHandlers (cellAt w a))"
  have en: "?e \<noteq> JNull" using nf by auto
  from symCancelFunc_sets_error [OF exec_stepping nf act al s] have top: "error (cellAt w' a) = ?e" .
  have hs1: "map snd (doneHandlers (cellAt ?w1 a)) = ?hs" by (simp add: cellAt_setCell)
  from symCancelFunc_live_forEach [OF exec_stepping nf act s] obtain rf w2
    where fe: "forEach (exec n) ?hs ?w1 = Some (rf, w2)" and s2: "steps w2 w'"
    unfolding hs1 by blast
  have c01: "carried ?e w ?w1" using act by (intro carried_setCell) simp_all
  have t1: "tame ?w1" using tm c01 by (rule tame_carried)
  have e1: "error (cellAt ?w1 a) = ?e" using al by (simp add: cellAt_setCell)
  have ph: "list_all (propagating a) ?hs" using tm al act unfolding tame_iff by blast
  from forEach_propagates [OF exec_quiet exec_propagates [OF nf] nf ph t1 e1 fe]
  have c12: "carried ?e ?w1 w2" and r12: "reached ?w1 w2"
    and d: "\<forall>y q. ParentDone y q \<in> set ?hs \<longrightarrow> y < length (cells ?w1) \<longrightarrow> error (cellAt w2 y) \<noteq> JNull"
    by simp_all
  have c02: "carried ?e w w2" using c01 c12 by (rule carried_trans)
  have e2: "error (cellAt w2 a) = ?e" using carriedD(2) [OF c12, of a] e1 en by simp
  have r02: "reached w w2"
    unfolding reached_def
  proof (intro allI impI)
    fix x y q'
    assume a: "error (cellAt w x) = JNull" "error (cellAt w2 x) \<noteq> JNull"
      "ParentDone y q' \<in> set (map snd (doneHandlers (cellAt w x)))" "y < length (cells w)"
    show "error (cellAt w2 y) \<noteq> JNull"
    proof (cases "x = a")
      case True
      with a(3,4) d show ?thesis by auto
    next
      case False
      then have "cellAt ?w1 x = cellAt w x" by (simp add: cellAt_setCell)
      with a reachedD [OF r12, of x y q'] show ?thesis by simp
    qed
  qed
  from chain_reached [OF c02 r02 ch act] e2 en have "\<forall>c \<in> set cs. errorOf w2 c = ?e" by simp
  moreover have "errorOf w' x = ?e" if "errorOf w2 x = ?e" for x
  proof (cases "cancelCell x")
    case None
    with that en show ?thesis by (simp add: errorOf_cancelCell)
  next
    case (Some y)
    with that en steps_error [OF s2, of y] show ?thesis by (simp add: errorOf_cancelCell)
  qed
  ultimately show ?thesis using top by blast
qed




text \<open>The store of the witness below is the one the constructors build.\<close>

lemma chainScenario_builds_chainWorld:
  "chainScenario = Some (Normal [chainCtx0, chainCtx1, chainCtx2, chainCtx3], chainWorld)"
  by code_simp


text \<open>
  Chains of every length: the contexts that \<^verbatim>\<open>withCancel\<close> derives one from another
  below an Active node of such a store form such a chain in such a store, and a cause
  given to the topmost node reaches all of them.
\<close>

lemma withCancel_active:
  assumes "cancelCell p = Some a" and "a < length (cells w)" and "error (cellAt w a) = JNull"
  shows "withCancel run p w =
     Some (Normal (CancelContext p None (length (cells w)), CancelTrigger (length (cells w))),
           w\<lparr>cells := (cells w @ [freshCell\<lparr>unregParentFunc := Some (Unregister a (nextSym w))\<rparr>])
                        [a := (cells w ! a)\<lparr>doneHandlers := doneHandlers (cells w ! a)
                               @ [(nextSym w, ParentDone (length (cells w)) p)]\<rparr>],
             nextSym := Suc (nextSym w)\<rparr>)"
  using assms
  by (simp add: withCancel_def withDeadline_def allocCell_def initCancelContext_def
      doneHandler_cancelCell [of _ p] cellAt_def setCell_def nth_append Let_def andThen_def ret_def
      list_update_append list_update_swap)

lemma deriveChain_linked:
  assumes "cancelCell p = Some a" and "a < length (cells w)" and "error (cellAt w a) = JNull"
    and "tame w"
  shows "\<exists>cs w'. deriveChain k p w = Some (cs, w') \<and> length cs = k
     \<and> chainFrom w' a cs \<and> tame w'
     \<and> length (cells w) \<le> length (cells w')
     \<and> (\<forall>x < length (cells w). x \<noteq> a \<longrightarrow> cellAt w' x = cellAt w x)
     \<and> error (cellAt w' a) = JNull
     \<and> set (doneHandlers (cellAt w a)) \<subseteq> set (doneHandlers (cellAt w' a))"
  using assms
proof (induction k arbitrary: p a w)
  case 0
  then show ?case by simp
next
  case (Suc k)
  let ?b = "length (cells w)"
  let ?c = "CancelContext p None ?b"
  let ?w1 = "w\<lparr>cells := (cells w @ [freshCell\<lparr>unregParentFunc := Some (Unregister a (nextSym w))\<rparr>])
                        [a := (cells w ! a)\<lparr>doneHandlers := doneHandlers (cells w ! a)
                               @ [(nextSym w, ParentDone ?b p)]\<rparr>],
             nextSym := Suc (nextSym w)\<rparr>"
  have wc: "withCancel (exec 0) p w = Some (Normal (?c, CancelTrigger ?b), ?w1)"
    using Suc.prems(1,2,3) by (rule withCancel_active)
  have ab: "a \<noteq> ?b" using Suc.prems(2) by simp
  have len1: "length (cells ?w1) = Suc ?b" by simp
  have b1: "cellAt ?w1 ?b = freshCell\<lparr>unregParentFunc := Some (Unregister a (nextSym w))\<rparr>"
    using ab by (simp add: cellAt_def nth_append)
  have a1: "cellAt ?w1 a = (cellAt w a)\<lparr>doneHandlers := doneHandlers (cellAt w a) @ [(nextSym w, ParentDone ?b p)]\<rparr>"
    using Suc.prems(2) by (simp add: cellAt_def nth_append)
  have other1: "cellAt ?w1 x = cellAt w x" if "x < ?b" "x \<noteq> a" for x
    using that by (simp add: cellAt_def nth_append)
  have t1: "tame ?w1"
    unfolding tame_iff
  proof (intro allI impI)
    fix x assume x: "x < length (cells ?w1)" "error (cellAt ?w1 x) = JNull"
    consider (new) "x = ?b" | (par) "x = a" | (old) "x < ?b" "x \<noteq> a" using x(1) by fastforce
    then show "list_all (propagating x) (map snd (doneHandlers (cellAt ?w1 x)))"
    proof cases
      case new
      then show ?thesis unfolding new b1 by (simp add: freshCell_def)
    next
      case par
      from Suc.prems(2,3,4) have "list_all (propagating a) (map snd (doneHandlers (cellAt w a)))"
        unfolding tame_iff by blast
      with Suc.prems(1) show ?thesis unfolding par a1 by simp
    next
      case old
      with x(2) other1 [OF old] Suc.prems(4) show ?thesis unfolding tame_iff by simp
    qed
  qed
  have pre: "cancelCell ?c = Some ?b" "?b < length (cells ?w1)" "error (cellAt ?w1 ?b) = JNull"
    unfolding b1 by (simp_all add: freshCell_def)
  from Suc.IH [OF pre t1] obtain cs w2 where ih:
    "deriveChain k ?c ?w1 = Some (cs, w2)" "length cs = k" "chainFrom w2 ?b cs" "tame w2"
    "length (cells ?w1) \<le> length (cells w2)"
    "\<forall>x < length (cells ?w1). x \<noteq> ?b \<longrightarrow> cellAt w2 x = cellAt ?w1 x"
    "error (cellAt w2 ?b) = JNull"
    by blast
  have a2: "cellAt w2 a = cellAt ?w1 a" using ih(6) Suc.prems(2) ab by simp
  have dc: "deriveChain (Suc k) p w = Some (?c # cs, w2)" using wc ih(1) by simp
  have hs: "doneHandlers (cellAt w2 a) = doneHandlers (cellAt w a) @ [(nextSym w, ParentDone ?b p)]"
    unfolding a2 a1 by simp
  have cf: "chainFrom w2 a (?c # cs)"
    using Suc.prems(1) ih(3,5,7) hs by simp
  have len2: "?b \<le> length (cells w2)" using ih(5) by simp
  have oth: "\<forall>x < ?b. x \<noteq> a \<longrightarrow> cellAt w2 x = cellAt w x"
    using ih(6) other1 by simp
  have ea: "error (cellAt w2 a) = JNull" using Suc.prems(3) unfolding a2 a1 by simp
  have sub: "set (doneHandlers (cellAt w a)) \<subseteq> set (doneHandlers (cellAt w2 a))"
    unfolding hs by auto
  show ?case
    using dc ih(2,4) cf len2 oth ea sub by (intro exI [of _ "?c # cs"] exI [of _ w2]) simp
qed

lemma derived_chain_cancelled:
  assumes "cancelCell p = Some a" and "a < length (cells w)" and "error (cellAt w a) = JNull"
    and "tame w" and "\<not> falsy E"
  shows "\<exists>cs w1. deriveChain k p w = Some (cs, w1) \<and> length cs = k
     \<and> (\<exists>n r w'. symCancelFunc (exec n) a (E # rest) w1 = Some (r, w'))
     \<and> (\<forall>n r w'. symCancelFunc (exec n) a (E # rest) w1 = Some (r, w') \<longrightarrow>
           error (cellAt w' a) = E \<and> (\<forall>c \<in> set cs. errorOf w' c = E))"
proof -
  from deriveChain_linked [OF assms(1-4), of k] obtain cs w1 where d:
    "deriveChain k p w = Some (cs, w1)" "length cs = k" "chainFrom w1 a cs" "tame w1"
    "length (cells w) \<le> length (cells w1)" "error (cellAt w1 a) = JNull"
    by blast
  have al: "a < length (cells w1)" using assms(2) d(5) by simp
  have nf: "\<not> falsy (arg 0 (E # rest))" using assms(5) by simp
  have all: "error (cellAt w' a) = E \<and> (\<forall>c \<in> set cs. errorOf w' c = E)"
    if "symCancelFunc (exec n) a (E # rest) w1 = Some (r, w')" for n r w'
    using chain_descent [OF d(4) al d(6) nf d(3) that] by simp
  have "\<exists>n r w'. symCancelFunc (exec n) a (E # rest) w1 = Some (r, w')"
    using symCancelFunc_total [of a "E # rest" w1] by auto
  with d(1,2) all show ?thesis by blast
qed

end
